theory Spec2Isabelle
  imports Main "HOL-Library.Word"
begin

section \<open>Strings of the scripts\<close>

text \<open>
  The two scripts (\<^verbatim>\<open>scripts/transliterate_csv.ts\<close> and its sibling with error
  handling, \<^verbatim>\<open>unnamed/part_000\<close>) are JavaScript: a string is a sequence of 16-bit
  code units. Every character the scripts test for lies in the Basic Multilingual Plane,
  so one code unit is one character of interest.
\<close>

type_synonym char16 = "16 word"
type_synonym jsstring = "char16 list"

definition js :: "string \<Rightarrow> jsstring" where
  "js s = map (\<lambda>c. of_char c) s"

definition DELIM :: char16 where "DELIM = 0x7C"   \<comment> \<open>\<^verbatim>\<open>|\<close>, \<^verbatim>\<open>const delimiter = "|"\<close>\<close>
definition QUOTE :: char16 where "QUOTE = 0x22"   \<comment> \<open>the double quote\<close>
definition CR :: char16 where "CR = 0x0D"
definition NL :: char16 where "NL = 0x0A"
definition BOM :: char16 where "BOM = 0xFEFF"

text \<open>
  \<^verbatim>\<open>String.prototype.split(sep)\<close> for a one-character separator (both scripts only
  pass \<^verbatim>\<open>"|"\<close>): the pieces between the occurrences of the separator; the empty
  string gives one empty piece. The result is never empty, so the first branch of the
  \<open>case\<close> is never taken.
\<close>

fun split :: "'a \<Rightarrow> 'a list \<Rightarrow> 'a list list" where
  "split d [] = [[]]"
| "split d (x # xs) =
     (if x = d then [] # split d xs
      else (case split d xs of [] \<Rightarrow> [[x]] | p # ps \<Rightarrow> (x # p) # ps))"

text \<open>\<^verbatim>\<open>Array.prototype.join(sep)\<close>; the empty array gives the empty string.\<close>

fun join :: "'a \<Rightarrow> 'a list list \<Rightarrow> 'a list" where
  "join d [] = []"
| "join d [c] = c"
| "join d (c # c' # cs) = c @ d # join d (c' # cs)"

text \<open>
  \<^verbatim>\<open>line.replace(/\r?$/, "")\<close>: the pattern has no \<^verbatim>\<open>m\<close> or \<^verbatim>\<open>g\<close> flag, so it
  matches once, at the end of the string, and removes one trailing carriage return
  when there is one.
\<close>

definition strip_cr :: "jsstring \<Rightarrow> jsstring" where
  "strip_cr line = (if line \<noteq> [] \<and> last line = CR then butlast line else line)"

text \<open>
  \<^verbatim>\<open>function parseCsvLine(line, delimiter = "|")\<close>, the same in both scripts:
  \<^verbatim>\<open>const cleaned = line.replace(/\r?$/, ""); return cleaned.split(delimiter);\<close>
\<close>

definition parseCsvLine :: "jsstring \<Rightarrow> char16 \<Rightarrow> jsstring list" where
  "parseCsvLine line delimiter = split delimiter (strip_cr line)"

text \<open>\<^verbatim>\<open>c.replace(/"/g, '""')\<close>: every quote character becomes two.\<close>

fun double_quotes :: "jsstring \<Rightarrow> jsstring" where
  "double_quotes [] = []"
| "double_quotes (x # xs) =
     (if x = QUOTE then QUOTE # QUOTE # double_quotes xs else x # double_quotes xs)"

text \<open>
  \<^verbatim>\<open>function joinCsvLine(cells, delimiter = "|")\<close>, the same in both scripts:
  \<^verbatim>\<open>cells.map((c) => (c.includes(delimiter) ? `"${c.replace(/"/g, '""')}"` : c)).join(delimiter)\<close>
\<close>

definition quote_cell :: "char16 \<Rightarrow> jsstring \<Rightarrow> jsstring" where
  "quote_cell delimiter c =
     (if delimiter \<in> set c then QUOTE # double_quotes c @ [QUOTE] else c)"

definition joinCsvLine :: "jsstring list \<Rightarrow> char16 \<Rightarrow> jsstring" where
  "joinCsvLine cells delimiter = join delimiter (map (quote_cell delimiter) cells)"

section \<open>White space, byte-order marks, letter case\<close>

text \<open>
  \<^verbatim>\<open>String.prototype.trim\<close> and the \<^verbatim>\<open>\s\<close> class of regular expressions use the
  same set: the WhiteSpace and LineTerminator code points of ECMAScript.
\<close>

definition isWhiteSpace :: "char16 \<Rightarrow> bool" where
  "isWhiteSpace c \<longleftrightarrow>
     c = 0x09 \<or> c = 0x0A \<or> c = 0x0B \<or> c = 0x0C \<or> c = 0x0D \<or> c = 0x20 \<or> c = 0xA0 \<or>
     c = 0x1680 \<or> (0x2000 \<le> c \<and> c \<le> 0x200A) \<or> c = 0x2028 \<or> c = 0x2029 \<or>
     c = 0x202F \<or> c = 0x205F \<or> c = 0x3000 \<or> c = 0xFEFF"

definition trim :: "jsstring \<Rightarrow> jsstring" where
  "trim s = rev (dropWhile isWhiteSpace (rev (dropWhile isWhiteSpace s)))"

text \<open>
  \<^verbatim>\<open>rawLine.replace(/BOM/g, "")\<close>, with the code unit U+FEFF for BOM: every
  byte-order mark of the line goes, wherever it stands.
\<close>

definition strip_bom :: "jsstring \<Rightarrow> jsstring" where
  "strip_bom rawLine = filter (\<lambda>c. c \<noteq> BOM) rawLine"

text \<open>
  \<^verbatim>\<open>String.prototype.toLowerCase\<close>, written out for the letters A to Z. The script
  only compares the result with \<^verbatim>\<open>"y"\<close> and \<^verbatim>\<open>"yes"\<close>, and no code point outside
  A to Z has \<^verbatim>\<open>y\<close>, \<^verbatim>\<open>e\<close> or \<^verbatim>\<open>s\<close> as its lower case, so the comparison is the
  script's.
\<close>

definition toLowerCase :: "jsstring \<Rightarrow> jsstring" where
  "toLowerCase s = map (\<lambda>c. if 0x41 \<le> c \<and> c \<le> 0x5A then c + 0x20 else c) s"

section \<open>The transliteration capability\<close>

text \<open>
  \<^verbatim>\<open>transliterate(heb, tiberian)\<close> comes from the pre-built library and is a parameter
  of the model: \<open>Inr\<close> is the text returned, \<open>Inl\<close> the message of the error thrown.
\<close>

type_synonym transliterate = "jsstring \<Rightarrow> jsstring + jsstring"

section \<open>The offending-token search\<close>

text \<open>
  \<^verbatim>\<open>heb.split(/([S]+)/u)\<close>, where the class S is white space, U+05BE, the hyphen
  and U+2010 to U+2015 listed one by one. Splitting on a pattern with a capture group
  keeps the separators, so the result alternates text, separator run, text, ... and
  starts and ends with a text piece that may be empty.
\<close>

definition isSplitSep :: "char16 \<Rightarrow> bool" where
  "isSplitSep c \<longleftrightarrow>
     isWhiteSpace c \<or> c = 0x05BE \<or> c = 0x2D \<or> c = 0x2010 \<or> c = 0x2011 \<or> c = 0x2012 \<or>
     c = 0x2013 \<or> c = 0x2014 \<or> c = 0x2015"

function split_capture :: "('a \<Rightarrow> bool) \<Rightarrow> 'a list \<Rightarrow> 'a list list" where
  "split_capture sep s =
     (case dropWhile (\<lambda>c. \<not> sep c) s of
        [] \<Rightarrow> [s]
      | r # rs \<Rightarrow>
          takeWhile (\<lambda>c. \<not> sep c) s # takeWhile sep (r # rs)
            # split_capture sep (dropWhile sep (r # rs)))"
  by pat_completeness auto
termination
proof (relation "measure (\<lambda>(sep, s). length s)")
  show "wf (measure (\<lambda>(sep, s). length s))" by simp
next
  fix sep :: "'a \<Rightarrow> bool" and s r rs
  assume eq: "dropWhile (\<lambda>c. \<not> sep c) s = r # rs"
  have "sep r"
    using hd_dropWhile [of "\<lambda>c. \<not> sep c" s] eq by simp
  then have "length (dropWhile sep (r # rs)) \<le> length rs"
    by (simp add: length_dropWhile_le)
  moreover have "length (r # rs) \<le> length s"
    using length_dropWhile_le [of "\<lambda>c. \<not> sep c" s] eq by simp
  ultimately show "((sep, dropWhile sep (r # rs)), (sep, s)) \<in> measure (\<lambda>(sep, s). length s)"
    by simp
qed

text \<open>
  \<^verbatim>\<open>/^[S]+$/.test(tok)\<close>, with U+2010 to U+2015 written as a range in the class: a
  non-empty run of separators.
\<close>

definition isPureSepChar :: "char16 \<Rightarrow> bool" where
  "isPureSepChar c \<longleftrightarrow>
     isWhiteSpace c \<or> c = 0x05BE \<or> c = 0x2D \<or> (0x2010 \<le> c \<and> c \<le> 0x2015)"

definition pure_separator :: "jsstring \<Rightarrow> bool" where
  "pure_separator tok \<longleftrightarrow> tok \<noteq> [] \<and> list_all isPureSepChar tok"

text \<open>
  The \<^verbatim>\<open>for (const tok of tokens)\<close> loop of \<^verbatim>\<open>findOffendingWord\<close>: separators are
  skipped, the first token on which \<^verbatim>\<open>transliterate\<close> throws is returned, and
  \<^verbatim>\<open>null\<close> (here \<open>None\<close>) when the loop ends.
\<close>

fun offending_loop :: "transliterate \<Rightarrow> jsstring list \<Rightarrow> jsstring option" where
  "offending_loop tr [] = None"
| "offending_loop tr (tok # toks) =
     (if pure_separator tok then offending_loop tr toks
      else (case tr tok of Inl e \<Rightarrow> Some tok | Inr t \<Rightarrow> offending_loop tr toks))"

definition findOffendingWord :: "transliterate \<Rightarrow> jsstring \<Rightarrow> jsstring option" where
  "findOffendingWord tr heb =
     offending_loop tr (filter (\<lambda>tok. tok \<noteq> []) (split_capture isSplitSep heb))"

section \<open>The operator's answer\<close>

text \<open>
  \<^verbatim>\<open>promptToContinue\<close> resolves to
  \<^verbatim>\<open>normalized === "y" || normalized === "yes"\<close> with
  \<^verbatim>\<open>normalized = String(answer || "").trim().toLowerCase()\<close>. The argument is what the
  callback of \<^verbatim>\<open>question\<close> receives: \<open>None\<close> when there is no answer text.
\<close>

definition promptToContinue :: "jsstring option \<Rightarrow> bool" where
  "promptToContinue answer =
     (let normalized = toLowerCase (trim (case answer of None \<Rightarrow> [] | Some a \<Rightarrow> a))
      in normalized = js ''y'' \<or> normalized = js ''yes'')"

section \<open>The run: state, channels and control flow\<close>

text \<open>
  Lines on the error channel (\<^verbatim>\<open>console.error\<close>). Each constructor is one template
  of the script and carries the values it interpolates:
  \<^item> \<open>InputNotFound p\<close>: \<^verbatim>\<open>Input file not found: ${inputPath}\<close>
  \<^item> \<open>HeaderMissing\<close>: \<^verbatim>\<open>Header must include 'vocalized' column\<close>
  \<^item> \<open>ErrorAt n hint msg\<close>: \<^verbatim>\<open>Error at CSV line ${lineNumber}${hint}: ${e.message}\<close>
  \<^item> \<open>TransliterationErrorAt n hint msg\<close>: the same line in debug mode, which starts
    \<^verbatim>\<open>Transliteration error at CSV line\<close>
  \<^item> \<open>OffendingToken tok\<close>: \<^verbatim>\<open>Offending token: ${badWord}\<close>
  \<^item> \<open>RowExcerpt text more\<close>: \<^verbatim>\<open>Row excerpt: ${line.slice(0, 200)}\<close>, followed by
    \<^verbatim>\<open>...\<close> when \<open>more\<close> holds
  \<^item> \<open>CompletedWithErrors\<close>: \<^verbatim>\<open>Completed with errors. See messages above.\<close>
  \<^item> \<open>Unhandled msg\<close>: the error printed by the handler of \<^verbatim>\<open>main().catch\<close>

  The hint is \<^verbatim>\<open> (${cells.slice(0, 3).join("|")})\<close> when \<^verbatim>\<open>locationHint\<close> is a
  non-empty string and nothing otherwise.
\<close>

datatype err_line =
    InputNotFound jsstring
  | HeaderMissing
  | ErrorAt nat "jsstring option" jsstring
  | TransliterationErrorAt nat "jsstring option" jsstring
  | OffendingToken jsstring
  | RowExcerpt jsstring bool
  | CompletedWithErrors
  | Unhandled jsstring

text \<open>
  Lines on standard output: the question of \<^verbatim>\<open>promptToContinue\<close>
  (\<^verbatim>\<open>${message} Continue? (y/N): \<close>) and \<^verbatim>\<open>Wrote: ${outputPath}\<close>.
\<close>

datatype out_line = Prompt jsstring | Wrote jsstring

text \<open>
  What one invocation is given: the two paths and the two flags read from
  \<^verbatim>\<open>process.argv\<close>, the lines that \<^verbatim>\<open>readline\<close> yields for the input file
  (\<open>None\<close> when \<^verbatim>\<open>fs.existsSync(inputPath)\<close> is false), and the lines of the
  operator that reach the callbacks of the successive questions, in order, before the
  operator's input ends.
\<close>

record invocation =
  inputPath :: jsstring
  outputPath :: jsstring
  debug :: bool
  skipErrors :: bool
  input :: "jsstring list option"
  answers :: "jsstring list"

text \<open>
  The variables of \<^verbatim>\<open>main\<close> and the channels it writes. \<open>exitCode\<close> is
  \<^verbatim>\<open>process.exitCode\<close>, 0 while it is unset; \<open>written\<close> holds the chunks passed to
  \<^verbatim>\<open>outputStream.write\<close>, in order; \<open>stdin\<close> is what is left of the operator's lines.
\<close>

record state =
  headerProcessed :: bool
  vocalizedIdx :: int
  headerCells :: "jsstring list"
  lineNumber :: nat
  exitCode :: nat
  written :: "jsstring list"
  stderr :: "err_line list"
  stdout :: "out_line list"
  stdin :: "jsstring list"

definition initial :: "invocation \<Rightarrow> state" where
  "initial cfg =
     \<lparr>headerProcessed = False, vocalizedIdx = - 1, headerCells = [], lineNumber = 0,
      exitCode = 0, written = [], stderr = [], stdout = [], stdin = answers cfg\<rparr>"

text \<open>
  How one pass through the loop body ends: it falls through or hits \<^verbatim>\<open>continue\<close>
  (\<open>Next\<close>), hits \<^verbatim>\<open>break\<close> (\<open>Break\<close>), calls \<^verbatim>\<open>process.exit(code)\<close> (\<open>Exit\<close>),
  lets an exception escape (\<open>Throw\<close>), or does not end: it stops at an \<^verbatim>\<open>await\<close>
  whose promise is never resolved (\<open>Stall\<close>).
\<close>

datatype flow =
  Next state | Break state | Exit state nat | Throw state jsstring | Stall state

text \<open>\<^verbatim>\<open>headerCells.indexOf("vocalized")\<close>: the first index, or -1.\<close>

fun indexOf :: "'a list \<Rightarrow> 'a \<Rightarrow> int" where
  "indexOf [] v = - 1"
| "indexOf (x # xs) v =
     (if x = v then 0 else (let i = indexOf xs v in if i = - 1 then - 1 else i + 1))"

text \<open>\<^verbatim>\<open>cells[i]\<close>: \<^verbatim>\<open>undefined\<close> (here \<open>None\<close>) outside the array.\<close>

definition element :: "'a list \<Rightarrow> int \<Rightarrow> 'a option" where
  "element cells i = (if 0 \<le> i \<and> nat i < length cells then Some (cells ! nat i) else None)"

text \<open>\<^verbatim>\<open>while (cells.length < headerCells.length) cells.push("")\<close>\<close>

definition pad :: "nat \<Rightarrow> jsstring list \<Rightarrow> jsstring list" where
  "pad n cells = cells @ replicate (n - length cells) []"

text \<open>
  \<^verbatim>\<open>heb ? transliterate(heb, tiberian) : ""\<close>: \<^verbatim>\<open>undefined\<close> and the empty string are
  falsy and give the empty result without a call.
\<close>

definition transliterate_cell :: "transliterate \<Rightarrow> jsstring option \<Rightarrow> jsstring + jsstring" where
  "transliterate_cell tr heb =
     (case heb of None \<Rightarrow> Inr [] | Some h \<Rightarrow> if h = [] then Inr [] else tr h)"

text \<open>\<^verbatim>\<open>outputStream.write(joinCsvLine([...cells, tib], delimiter) + "\n")\<close>\<close>

definition write_row :: "jsstring list \<Rightarrow> jsstring \<Rightarrow> state \<Rightarrow> state" where
  "write_row cells tib s = s\<lparr>written := written s @ [joinCsvLine (cells @ [tib]) DELIM @ [NL]]\<rparr>"

text \<open>The first pass of the loop, \<^verbatim>\<open>if (!headerProcessed) { ... continue; }\<close>.\<close>

definition header_step :: "state \<Rightarrow> jsstring \<Rightarrow> flow" where
  "header_step s line =
     (let hc = parseCsvLine line DELIM;
          idx = indexOf hc (js ''vocalized'');
          s1 = s\<lparr>headerCells := hc, vocalizedIdx := idx\<rparr>
      in if idx = - 1 then Exit (s1\<lparr>stderr := stderr s1 @ [HeaderMissing]\<rparr>) 1
         else Next ((write_row hc (js ''tiberian'') s1)\<lparr>headerProcessed := True\<rparr>))"

text \<open>
  The \<^verbatim>\<open>console.error\<close> calls of the \<^verbatim>\<open>catch\<close> block, which read
  \<^verbatim>\<open>headerCells\<close> and \<^verbatim>\<open>lineNumber\<close> of \<^verbatim>\<open>main\<close> (here \<open>hcells\<close>, \<open>lineNo\<close>).
\<close>

definition report ::
  "transliterate \<Rightarrow> bool \<Rightarrow> jsstring list \<Rightarrow> nat \<Rightarrow> jsstring list \<Rightarrow> jsstring
     \<Rightarrow> jsstring option \<Rightarrow> jsstring \<Rightarrow> err_line list" where
  "report tr dbg hcells lineNo cells line heb msg =
     (let locationHint = join DELIM (take 3 hcells);
          hint = (if locationHint \<noteq> [] then Some (join DELIM (take 3 cells)) else None)
      in if dbg then
           (let badWord = (case heb of None \<Rightarrow> None
                           | Some h \<Rightarrow> if h = [] then None else findOffendingWord tr h)
            in [TransliterationErrorAt lineNo hint msg]
               @ (case badWord of None \<Rightarrow> []
                  | Some w \<Rightarrow> if w = [] then [] else [OffendingToken w])
               @ [RowExcerpt (take 200 line) (200 < length line)])
         else [ErrorAt lineNo hint msg])"

text \<open>
  \<^verbatim>\<open>await promptToContinue("An error occurred while transliterating this row.")\<close>:
  the question goes to standard output, and the promise is resolved by the callback of
  \<^verbatim>\<open>question\<close>, with the operator's next line. Nothing else resolves it (the script
  has no handler for the end of the input), so when the operator's input has ended the
  callback is never called and the \<^verbatim>\<open>await\<close> never returns: the result is \<open>None\<close>.
\<close>

definition ask :: "state \<Rightarrow> bool option \<times> state" where
  "ask s =
     (let s1 = s\<lparr>stdout := stdout s
                   @ [Prompt (js ''An error occurred while transliterating this row.'')]\<rparr>
      in case stdin s of
           [] \<Rightarrow> (None, s1)
         | a # rest \<Rightarrow> (Some (promptToContinue (Some a)), s1\<lparr>stdin := rest\<rparr>))"

text \<open>A data row in the script with error handling (lines 87 to 123).\<close>

definition row_step :: "transliterate \<Rightarrow> invocation \<Rightarrow> state \<Rightarrow> jsstring \<Rightarrow> flow" where
  "row_step tr cfg s line =
     (let cells = pad (length (headerCells s)) (parseCsvLine line DELIM);
          heb = element cells (vocalizedIdx s)
      in case transliterate_cell tr heb of
           Inr tib \<Rightarrow> Next (write_row cells tib s)
         | Inl msg \<Rightarrow>
             (let s1 = s\<lparr>stderr := stderr s
                     @ report tr (debug cfg) (headerCells s) (lineNumber s) cells line heb msg\<rparr>
              in if skipErrors cfg then Next (write_row cells [] s1)
                 else (case ask s1 of
                         (None, s2) \<Rightarrow> Stall s2
                       | (Some proceed, s2) \<Rightarrow>
                           if \<not> proceed then Break (s2\<lparr>exitCode := 1\<rparr>)
                           else Next (write_row cells [] s2))))"

definition body :: "transliterate \<Rightarrow> invocation \<Rightarrow> state \<Rightarrow> jsstring \<Rightarrow> flow" where
  "body tr cfg s rawLine =
     (let s1 = s\<lparr>lineNumber := lineNumber s + 1\<rparr>;
          line = strip_bom rawLine
      in if \<not> headerProcessed s1 then header_step s1 line
         else if trim line = [] then Next s1
         else row_step tr cfg s1 line)"

text \<open>\<^verbatim>\<open>for await (const rawLine of rl) { ... }\<close>\<close>

fun for_await :: "(state \<Rightarrow> jsstring \<Rightarrow> flow) \<Rightarrow> jsstring list \<Rightarrow> state \<Rightarrow> flow" where
  "for_await b [] s = Next s"
| "for_await b (rawLine # rest) s =
     (case b s rawLine of
        Next s' \<Rightarrow> for_await b rest s'
      | Break s' \<Rightarrow> Break s'
      | Exit s' code \<Rightarrow> Exit s' code
      | Throw s' e \<Rightarrow> Throw s' e
      | Stall s' \<Rightarrow> Stall s')"

text \<open>
  What a finished process leaves: the chunks written to the output file, the two
  console channels, the exit status, and the error that escaped \<^verbatim>\<open>main\<close> without a
  handler, if any.
\<close>

record outcome =
  outfile :: "jsstring list"
  errors :: "err_line list"
  console :: "out_line list"
  status :: nat
  uncaught :: "jsstring option"

definition leave :: "state \<Rightarrow> nat \<Rightarrow> outcome" where
  "leave s code =
     \<lparr>outfile = written s, errors = stderr s, console = stdout s, status = code,
      uncaught = None\<rparr>"

text \<open>After the loop of the script with error handling (lines 126 to 132).\<close>

definition finish :: "invocation \<Rightarrow> state \<Rightarrow> outcome" where
  "finish cfg s =
     (if exitCode s \<noteq> 0
      then leave (s\<lparr>stderr := stderr s @ [CompletedWithErrors]\<rparr>) (exitCode s)
      else leave (s\<lparr>stdout := stdout s @ [Wrote (outputPath cfg)]\<rparr>) 0)"

text \<open>
  The end of the process for each way the loop can end. After \<open>Stall\<close> nothing of
  lines 115 to 132 runs: with the operator's input closed nothing is left to wait for,
  and the process ends with \<^verbatim>\<open>process.exitCode\<close> as it stands, without a final line.
\<close>

definition complete :: "invocation \<Rightarrow> flow \<Rightarrow> outcome" where
  "complete cfg f =
     (case f of
        Next s \<Rightarrow> finish cfg s
      | Break s \<Rightarrow> finish cfg s
      | Exit s code \<Rightarrow> leave s code
      | Throw s e \<Rightarrow> leave (s\<lparr>stderr := stderr s @ [Unhandled e]\<rparr>) 1
      | Stall s \<Rightarrow> leave s (exitCode s))"

text \<open>
  \<^verbatim>\<open>main\<close> of the script with error handling, run as
  \<^verbatim>\<open>main().catch((err) => { console.error(err); process.exit(1); })\<close>.
\<close>

definition main :: "transliterate \<Rightarrow> invocation \<Rightarrow> outcome" where
  "main tr cfg =
     (case input cfg of
        None \<Rightarrow> leave ((initial cfg)\<lparr>stderr := [InputNotFound (inputPath cfg)]\<rparr>) 1
      | Some lines \<Rightarrow> complete cfg (for_await (body tr cfg) lines (initial cfg)))"

subsection \<open>The script without error handling\<close>

text \<open>
  \<^verbatim>\<open>scripts/transliterate_csv.ts\<close> has the same header pass and the same blank-line
  test, no line counter, no flags and no \<^verbatim>\<open>try\<close>: an error thrown by
  \<^verbatim>\<open>transliterate\<close> leaves the loop and \<^verbatim>\<open>main\<close>, which is called as a bare
  \<^verbatim>\<open>main();\<close>, so the rejection has no handler and the process ends on it (with
  status 1). The state is the one of the other script; the fields this script does not
  have keep their initial values.
\<close>

definition row_step_ts :: "transliterate \<Rightarrow> state \<Rightarrow> jsstring \<Rightarrow> flow" where
  "row_step_ts tr s line =
     (let cells = pad (length (headerCells s)) (parseCsvLine line DELIM);
          heb = element cells (vocalizedIdx s)
      in case transliterate_cell tr heb of
           Inr tib \<Rightarrow> Next (write_row cells tib s)
         | Inl msg \<Rightarrow> Throw s msg)"

definition body_ts :: "transliterate \<Rightarrow> state \<Rightarrow> jsstring \<Rightarrow> flow" where
  "body_ts tr s rawLine =
     (let line = strip_bom rawLine
      in if \<not> headerProcessed s then header_step s line
         else if trim line = [] then Next s
         else row_step_ts tr s line)"

definition main_ts :: "transliterate \<Rightarrow> invocation \<Rightarrow> outcome" where
  "main_ts tr cfg =
     (case input cfg of
        None \<Rightarrow> leave ((initial cfg)\<lparr>stderr := [InputNotFound (inputPath cfg)]\<rparr>) 1
      | Some lines \<Rightarrow>
          (case for_await (body_ts tr) lines (initial cfg) of
             Next s \<Rightarrow> leave (s\<lparr>stdout := stdout s @ [Wrote (outputPath cfg)]\<rparr>) 0
           | Break s \<Rightarrow> leave (s\<lparr>stdout := stdout s @ [Wrote (outputPath cfg)]\<rparr>) 0
           | Exit s code \<Rightarrow> leave s code
           | Throw s e \<Rightarrow> (leave s 1)\<lparr>uncaught := Some e\<rparr>
           | Stall s \<Rightarrow> leave s (exitCode s)))"

section \<open>Definitions used in the statements\<close>

text \<open>
  The scripts write quoted fields and never read them back: \<^verbatim>\<open>parseCsvLine\<close> only
  splits (its comment in \<^verbatim>\<open>transliterate_csv.ts\<close>: \<^emph>\<open>Handle simple cases without
  quotes\<close>). The unescaping rule below is the inverse the specification speaks of,
  written from its words (enclosing quotes removed, doubled quotes halved); it is
  named \<open>spec_\<close> because no function of the scripts computes it.
\<close>

fun spec_undouble :: "jsstring \<Rightarrow> jsstring" where
  "spec_undouble (x # y # xs) =
     (if x = QUOTE \<and> y = QUOTE then QUOTE # spec_undouble xs else x # spec_undouble (y # xs))"
| "spec_undouble xs = xs"

definition spec_unquote :: "jsstring \<Rightarrow> jsstring" where
  "spec_unquote field =
     (if 2 \<le> length field \<and> hd field = QUOTE \<and> last field = QUOTE
      then spec_undouble (butlast (tl field)) else field)"

text \<open>
  A stand-in for the library and an invocation, used where a theorem is instantiated on
  concrete input: the stand-in rejects any text with an exclamation mark and returns the
  reversed text otherwise; the invocation is interactive, not in debug mode, and its
  operator types nothing.
\<close>

definition sample_transliterate :: transliterate where
  "sample_transliterate heb =
     (if 0x21 \<in> set heb then Inl (js ''bad'') else Inr (rev heb))"

definition sample_run :: "jsstring list \<Rightarrow> invocation" where
  "sample_run lines =
     \<lparr>inputPath = js ''in.csv'', outputPath = js ''out.csv'', debug = False,
      skipErrors = False, input = Some lines, answers = []\<rparr>"

text \<open>
  A blank line, in the words of the specification: nothing but white space. (A
  byte-order mark is white space, so removing the marks first changes nothing.)
\<close>

definition blank :: "jsstring \<Rightarrow> bool" where
  "blank rawLine \<longleftrightarrow> list_all isWhiteSpace rawLine"

text \<open>
  The fields of the header line as the scripts read them, and the line they write for
  the header.
\<close>

definition header_fields :: "jsstring \<Rightarrow> jsstring list" where
  "header_fields rawLine = parseCsvLine (strip_bom rawLine) DELIM"

definition header_row :: "jsstring list \<Rightarrow> jsstring" where
  "header_row hc = joinCsvLine (hc @ [js ''tiberian'']) DELIM @ [NL]"

text \<open>
  For a data row under the header cells \<open>hc\<close>: its cells after padding, what
  transliterating its \<^verbatim>\<open>vocalized\<close> cell gives, the line written for it (with the
  empty text in the last field when the library rejects the cell), and the diagnostics
  logged for it at line number \<open>n\<close>.
\<close>

definition row_cells :: "jsstring list \<Rightarrow> jsstring \<Rightarrow> jsstring list" where
  "row_cells hc rawLine = pad (length hc) (parseCsvLine (strip_bom rawLine) DELIM)"

definition row_result :: "transliterate \<Rightarrow> jsstring list \<Rightarrow> jsstring \<Rightarrow> jsstring + jsstring" where
  "row_result tr hc rawLine =
     transliterate_cell tr (element (row_cells hc rawLine) (indexOf hc (js ''vocalized'')))"

definition output_row :: "transliterate \<Rightarrow> jsstring list \<Rightarrow> jsstring \<Rightarrow> jsstring" where
  "output_row tr hc rawLine =
     joinCsvLine (row_cells hc rawLine
                  @ [case row_result tr hc rawLine of Inr tib \<Rightarrow> tib | Inl msg \<Rightarrow> []]) DELIM
     @ [NL]"

definition row_report :: "transliterate \<Rightarrow> bool \<Rightarrow> jsstring list \<Rightarrow> nat \<Rightarrow> jsstring \<Rightarrow> err_line list" where
  "row_report tr dbg hc n rawLine =
     (case row_result tr hc rawLine of
        Inr tib \<Rightarrow> []
      | Inl msg \<Rightarrow>
          report tr dbg hc n (row_cells hc rawLine) (strip_bom rawLine)
            (element (row_cells hc rawLine) (indexOf hc (js ''vocalized''))) msg)"

text \<open>
  The loop once the header has been read: \<open>ready hc s\<close> says that \<open>s\<close> holds the header
  cells \<open>hc\<close> and the index found for them; \<open>after_header\<close> is the state the header
  pass leaves (up to the line counter). \<open>state_of\<close> reads the state out of any way a
  pass can end, \<open>next_answer\<close> is what the next question will be answered (\<open>None\<close>
  when the operator's input has ended), and \<open>question\<close> is the line a question puts on
  standard output.
\<close>

definition ready :: "jsstring list \<Rightarrow> state \<Rightarrow> bool" where
  "ready hc s \<longleftrightarrow>
     headerProcessed s \<and> headerCells s = hc \<and> vocalizedIdx s = indexOf hc (js ''vocalized'')"

definition after_header :: "invocation \<Rightarrow> jsstring \<Rightarrow> state" where
  "after_header cfg h =
     (initial cfg)\<lparr>headerProcessed := True,
                    vocalizedIdx := indexOf (header_fields h) (js ''vocalized''),
                    headerCells := header_fields h,
                    written := [header_row (header_fields h)]\<rparr>"

fun state_of :: "flow \<Rightarrow> state" where
  "state_of (Next s) = s"
| "state_of (Break s) = s"
| "state_of (Exit s code) = s"
| "state_of (Throw s e) = s"
| "state_of (Stall s) = s"

definition next_answer :: "state \<Rightarrow> jsstring option" where
  "next_answer s = (case stdin s of [] \<Rightarrow> None | a # rest \<Rightarrow> Some a)"

definition question :: out_line where
  "question = Prompt (js ''An error occurred while transliterating this row.'')"

text \<open>
  The line numbers that the failure diagnostics on the error channel name, in order; and
  the positions of the rejected rows among \<open>rows\<close>, counted from \<open>n\<close> for the first.
\<close>

fun diagnostic_lines :: "err_line list \<Rightarrow> nat list" where
  "diagnostic_lines [] = []"
| "diagnostic_lines (ErrorAt n hint msg # es) = n # diagnostic_lines es"
| "diagnostic_lines (TransliterationErrorAt n hint msg # es) = n # diagnostic_lines es"
| "diagnostic_lines (e # es) = diagnostic_lines es"

definition rejected_lines :: "transliterate \<Rightarrow> jsstring list \<Rightarrow> nat \<Rightarrow> jsstring list \<Rightarrow> nat list" where
  "rejected_lines tr hc n rows =
     map fst (filter (\<lambda>(i, r). \<not> blank r \<and> isl (row_result tr hc r)) (enumerate n rows))"

text \<open>
  The tokens that the loop of \<^verbatim>\<open>findOffendingWord\<close> passes to the library: those left
  by \<^verbatim>\<open>filter(Boolean)\<close> and not skipped as pure separators.
\<close>

definition remaining_tokens :: "jsstring \<Rightarrow> jsstring list" where
  "remaining_tokens heb =
     filter (\<lambda>tok. tok \<noteq> [] \<and> \<not> pure_separator tok) (split_capture isSplitSep heb)"

text \<open>
  The words of a text, read off the specification's description of the search: the
  maximal runs of characters that are not separators, from left to right. This is what
  should remain once the text is split at separators and the separator tokens are
  dropped; \<open>cur\<close> is the word being read.
\<close>

fun spec_words_from :: "('a \<Rightarrow> bool) \<Rightarrow> 'a list \<Rightarrow> 'a list \<Rightarrow> 'a list list" where
  "spec_words_from sep cur [] = (if cur = [] then [] else [cur])"
| "spec_words_from sep cur (c # cs) =
     (if sep c then (if cur = [] then spec_words_from sep [] cs
                     else cur # spec_words_from sep [] cs)
      else spec_words_from sep (cur @ [c]) cs)"

definition spec_words :: "('a \<Rightarrow> bool) \<Rightarrow> 'a list \<Rightarrow> 'a list list" where
  "spec_words sep s = spec_words_from sep [] s"

section \<open>Splitting, joining and quoting\<close>

lemma split_not_Nil: "split d xs \<noteq> []"
  by (induction xs) (auto split: list.splits)

lemma join_Cons_Cons: "join d ((a # p) # ps) = a # join d (p # ps)"
  by (cases ps) simp_all

lemma split_no_delim: "d \<notin> set c \<Longrightarrow> split d c = [c]"
  by (induction c) auto

lemma split_append_delim:
  "d \<notin> set c \<Longrightarrow> split d (c @ d # rest) = c # split d rest"
  by (induction c) (auto split: list.splits)

lemma split_join:
  "cells \<noteq> [] \<Longrightarrow> \<forall>c\<in>set cells. d \<notin> set c \<Longrightarrow> split d (join d cells) = cells"
  by (induction d cells rule: join.induct) (simp_all add: split_no_delim split_append_delim)

lemma join_split: "join d (split d xs) = xs"
  by (induction xs) (auto split: list.splits simp: join_Cons_Cons)

lemma length_split: "length (split d xs) = Suc (count_list xs d)"
  by (induction xs) (auto split: list.splits)

lemma split_cells_no_delim: "c \<in> set (split d xs) \<Longrightarrow> d \<notin> set c"
  by (induction xs arbitrary: c) (auto split: list.splits if_splits)

lemma last_join_not:
  "cells \<noteq> [] \<Longrightarrow> \<forall>c\<in>set cells. c \<noteq> [] \<longrightarrow> last c \<noteq> x \<Longrightarrow> d \<noteq> x \<Longrightarrow>
   join d cells \<noteq> [] \<longrightarrow> last (join d cells) \<noteq> x"
  by (induction d cells rule: join.induct) auto

lemma strip_cr_id: "line \<noteq> [] \<longrightarrow> last line \<noteq> CR \<Longrightarrow> strip_cr line = line"
  by (auto simp: strip_cr_def)

lemma quote_cell_id: "d \<notin> set c \<Longrightarrow> quote_cell d c = c"
  by (simp add: quote_cell_def)

lemma map_quote_cell_id: "\<forall>c\<in>set cells. d \<notin> set c \<Longrightarrow> map (quote_cell d) cells = cells"
  by (induction cells) (simp_all add: quote_cell_id)

lemma DELIM_not_CR: "DELIM \<noteq> CR"
  by (simp add: DELIM_def CR_def)

lemma DELIM_not_QUOTE: "DELIM \<noteq> QUOTE"
  by (simp add: DELIM_def QUOTE_def)

lemma QUOTE_not_CR: "QUOTE \<noteq> CR"
  by (simp add: QUOTE_def CR_def)

lemma undouble_double: "spec_undouble (double_quotes c) = c"
proof (induction c)
  case Nil
  show ?case by simp
next
  case (Cons x xs)
  show ?case
  proof (cases "x = QUOTE")
    case True
    with Cons show ?thesis by simp
  next
    case False
    with Cons show ?thesis by (cases "double_quotes xs") auto
  qed
qed

lemma count_double_quotes:
  "count_list (double_quotes c) x = (if x = QUOTE then 2 * count_list c x else count_list c x)"
  by (induction c) auto

lemma length_double_quotes: "length (double_quotes c) = length c + count_list c QUOTE"
  by (induction c) auto

text \<open>
  Claim C10, as amended. For every list of fields, parsing the joined line gives the list
  back when the list is not empty, no field contains the delimiter or the quote
  character, and no field ends with a carriage return. (The empty list joins to the
  empty line, which parses to one empty field.)
\<close>

theorem parse_join_identity:
  assumes "cells \<noteq> []"
    and "\<forall>c\<in>set cells. DELIM \<notin> set c \<and> QUOTE \<notin> set c \<and> (c \<noteq> [] \<longrightarrow> last c \<noteq> CR)"
  shows "parseCsvLine (joinCsvLine cells DELIM) DELIM = cells"
proof -
  have nd: "\<forall>c\<in>set cells. DELIM \<notin> set c" using assms(2) by blast
  have ncr: "\<forall>c\<in>set cells. c \<noteq> [] \<longrightarrow> last c \<noteq> CR" using assms(2) by blast
  have j: "joinCsvLine cells DELIM = join DELIM cells"
    by (simp add: joinCsvLine_def map_quote_cell_id [OF nd])
  have "strip_cr (join DELIM cells) = join DELIM cells"
    by (rule strip_cr_id) (rule last_join_not [OF assms(1) ncr DELIM_not_CR])
  then show ?thesis
    by (simp add: parseCsvLine_def j split_join [OF assms(1) nd])
qed

theorem parse_join_identity_witness:
  "parseCsvLine (joinCsvLine [js ''Gen'', js ''1'', []] DELIM) DELIM = [js ''Gen'', js ''1'', []]"
  using parse_join_identity [of "[js ''Gen'', js ''1'', []]"]
  by (simp add: js_def DELIM_def QUOTE_def CR_def)

text \<open>
  Claim C10 as stated fails at the empty list of fields: it is joined to the empty
  line, and the empty line parses to a list of one (empty) field.
\<close>

theorem parse_join_empty_counterexample:
  "parseCsvLine (joinCsvLine [] DELIM) DELIM = [[]] \<and>
   parseCsvLine (joinCsvLine [] DELIM) DELIM \<noteq> []"
  by (simp add: parseCsvLine_def joinCsvLine_def strip_cr_def)

text \<open>
  Claim C3, as amended. A field that contains the delimiter is written between two quote
  characters with every quote of its own doubled (the number of quotes doubles, the
  text grows by one character for each), and the written text determines the field:
  removing the enclosing quotes and halving the doubled ones gives it back. The
  program's own parsing rule does not read quotes: it splits the written text at every
  delimiter, into one piece more than the field has delimiters, so it never gives the
  field back; joining the pieces with the delimiter gives the written text again.
\<close>

theorem quoted_field:
  assumes "DELIM \<in> set c"
  shows "joinCsvLine [c] DELIM = QUOTE # double_quotes c @ [QUOTE]
    \<and> count_list (double_quotes c) QUOTE = 2 * count_list c QUOTE
    \<and> length (double_quotes c) = length c + count_list c QUOTE
    \<and> spec_unquote (joinCsvLine [c] DELIM) = c
    \<and> length (parseCsvLine (joinCsvLine [c] DELIM) DELIM) = Suc (count_list c DELIM)
    \<and> parseCsvLine (joinCsvLine [c] DELIM) DELIM \<noteq> [c]
    \<and> join DELIM (parseCsvLine (joinCsvLine [c] DELIM) DELIM) = joinCsvLine [c] DELIM"
proof -
  have w: "joinCsvLine [c] DELIM = QUOTE # double_quotes c @ [QUOTE]"
    using assms by (simp add: joinCsvLine_def quote_cell_def)
  have c2: "count_list (double_quotes c) QUOTE = 2 * count_list c QUOTE"
    by (simp add: count_double_quotes)
  have u: "spec_unquote (joinCsvLine [c] DELIM) = c"
    by (simp add: w spec_unquote_def undouble_double)
  have s: "strip_cr (joinCsvLine [c] DELIM) = joinCsvLine [c] DELIM"
    by (rule strip_cr_id) (simp add: w QUOTE_not_CR)
  have pos: "0 < count_list c DELIM"
    using assms by (induction c) auto
  have len: "length (parseCsvLine (joinCsvLine [c] DELIM) DELIM) = Suc (count_list c DELIM)"
    using DELIM_not_QUOTE
    by (simp add: parseCsvLine_def s length_split) (simp add: w count_double_quotes)
  have ne: "parseCsvLine (joinCsvLine [c] DELIM) DELIM \<noteq> [c]"
  proof
    assume "parseCsvLine (joinCsvLine [c] DELIM) DELIM = [c]"
    then have "length (parseCsvLine (joinCsvLine [c] DELIM) DELIM) = 1" by simp
    with len pos show False by simp
  qed
  have j: "join DELIM (parseCsvLine (joinCsvLine [c] DELIM) DELIM) = joinCsvLine [c] DELIM"
    by (simp add: parseCsvLine_def s join_split)
  from w c2 length_double_quotes u len ne j show ?thesis by blast
qed

theorem quoted_field_witness:
  "DELIM \<in> set (js ''a|\"b'')
   \<and> joinCsvLine [js ''a|\"b''] DELIM = js ''\"a|\"\"b\"''
   \<and> spec_unquote (joinCsvLine [js ''a|\"b''] DELIM) = js ''a|\"b''
   \<and> parseCsvLine (joinCsvLine [js ''a|\"b''] DELIM) DELIM \<noteq> [js ''a|\"b'']"
proof -
  have h: "DELIM \<in> set (js ''a|\"b'')"
    by (simp add: js_def DELIM_def)
  have v: "QUOTE # double_quotes (js ''a|\"b'') @ [QUOTE] = js ''\"a|\"\"b\"''"
    by (simp add: js_def QUOTE_def)
  from quoted_field [OF h] h v show ?thesis
    by metis
qed

text \<open>
  Claim C3 as stated fails: the field \<^verbatim>\<open>a|b\<close> is written as \<^verbatim>\<open>"a|b"\<close>, which the
  program's parsing rule reads as the two fields \<^verbatim>\<open>"a\<close> and \<^verbatim>\<open>b"\<close>.
\<close>

theorem quoted_field_counterexample:
  "parseCsvLine (joinCsvLine [js ''a|b''] DELIM) DELIM = [js ''\"a'', js ''b\"'']
   \<and> parseCsvLine (joinCsvLine [js ''a|b''] DELIM) DELIM \<noteq> [js ''a|b'']"
  by (simp add: parseCsvLine_def joinCsvLine_def quote_cell_def strip_cr_def js_def
      DELIM_def QUOTE_def CR_def)

section \<open>One pass of the loop\<close>

lemma trim_empty_iff: "trim l = [] \<longleftrightarrow> list_all isWhiteSpace l"
proof
  assume "trim l = []"
  then have a: "\<forall>x\<in>set (dropWhile isWhiteSpace l). isWhiteSpace x"
    by (simp add: trim_def dropWhile_eq_Nil_conv)
  have "dropWhile isWhiteSpace l = []"
  proof (rule ccontr)
    assume ne: "dropWhile isWhiteSpace l \<noteq> []"
    then have "\<not> isWhiteSpace (hd (dropWhile isWhiteSpace l))" by (rule hd_dropWhile)
    moreover have "hd (dropWhile isWhiteSpace l) \<in> set (dropWhile isWhiteSpace l)"
      using ne by simp
    ultimately show False using a by blast
  qed
  then show "list_all isWhiteSpace l"
    by (simp add: dropWhile_eq_Nil_conv list_all_iff)
next
  assume "list_all isWhiteSpace l"
  then have "\<forall>x\<in>set l. isWhiteSpace x"
    by (simp add: list_all_iff)
  then have dl: "dropWhile isWhiteSpace l = []"
    by (simp only: dropWhile_eq_Nil_conv)
  show "trim l = []" unfolding trim_def dl by simp
qed

lemma isWhiteSpace_BOM: "isWhiteSpace BOM"
  by (simp add: isWhiteSpace_def BOM_def)

lemma trim_strip_bom: "trim (strip_bom l) = [] \<longleftrightarrow> blank l"
  using isWhiteSpace_BOM
  by (auto simp: trim_empty_iff blank_def strip_bom_def list_all_iff)

lemma indexOf_lower: "- 1 \<le> indexOf xs v"
  by (induction xs) (auto simp: Let_def)

lemma indexOf_absent: "indexOf xs v = - 1 \<longleftrightarrow> v \<notin> set xs"
proof (induction xs)
  case Nil
  show ?case by simp
next
  case (Cons x xs)
  have "- 1 \<le> indexOf xs v" by (rule indexOf_lower)
  with Cons show ?case by (auto simp: Let_def)
qed

lemma indexOf_range: "v \<in> set xs \<Longrightarrow> 0 \<le> indexOf xs v \<and> nat (indexOf xs v) < length xs"
  by (induction xs) (auto simp: Let_def indexOf_absent)

lemma body_header_ok:
  assumes "\<not> headerProcessed s" and "js ''vocalized'' \<in> set (header_fields h)"
  shows "body tr cfg s h =
     Next (s\<lparr>headerProcessed := True, vocalizedIdx := indexOf (header_fields h) (js ''vocalized''),
             headerCells := header_fields h, lineNumber := lineNumber s + 1,
             written := written s @ [header_row (header_fields h)]\<rparr>)"
  using assms
  by (simp add: body_def header_step_def Let_def indexOf_absent header_fields_def
      write_row_def header_row_def)

lemma body_header_missing:
  assumes "\<not> headerProcessed s" and "js ''vocalized'' \<notin> set (header_fields h)"
  shows "body tr cfg s h =
     Exit (s\<lparr>vocalizedIdx := - 1,
             headerCells := header_fields h, lineNumber := lineNumber s + 1,
             stderr := stderr s @ [HeaderMissing]\<rparr>) 1"
  using assms
  by (simp add: body_def header_step_def Let_def indexOf_absent header_fields_def)

lemma body_blank:
  assumes "ready hc s" and "blank r"
  shows "body tr cfg s r = Next (s\<lparr>lineNumber := lineNumber s + 1\<rparr>)"
  using assms by (simp add: body_def ready_def trim_strip_bom)

lemma body_success:
  assumes "ready hc s" and "\<not> blank r" and "row_result tr hc r = Inr tib"
  shows "body tr cfg s r =
     Next (s\<lparr>lineNumber := lineNumber s + 1, written := written s @ [output_row tr hc r]\<rparr>)"
  using assms
  by (simp add: body_def ready_def trim_strip_bom row_step_def Let_def row_result_def
      row_cells_def output_row_def write_row_def)

lemma output_row_failure:
  "row_result tr hc r = Inl msg \<Longrightarrow>
   output_row tr hc r = joinCsvLine (row_cells hc r @ [[]]) DELIM @ [NL]"
  by (simp add: output_row_def)

lemma output_row_success:
  "row_result tr hc r = Inr tib \<Longrightarrow>
   output_row tr hc r = joinCsvLine (row_cells hc r @ [tib]) DELIM @ [NL]"
  by (simp add: output_row_def)

lemma body_failure_skip:
  assumes "ready hc s" and "\<not> blank r" and "row_result tr hc r = Inl msg" and "skipErrors cfg"
  shows "body tr cfg s r =
     Next (s\<lparr>lineNumber := lineNumber s + 1,
             stderr := stderr s @ row_report tr (debug cfg) hc (lineNumber s + 1) r,
             written := written s @ [output_row tr hc r]\<rparr>)"
  using assms
  by (simp add: body_def ready_def trim_strip_bom row_step_def Let_def row_result_def
      row_cells_def output_row_def write_row_def row_report_def)

lemma body_failure_accept:
  assumes "ready hc s" and "\<not> blank r" and "row_result tr hc r = Inl msg"
    and "\<not> skipErrors cfg" and "stdin s \<noteq> []" and "promptToContinue (next_answer s)"
  shows "body tr cfg s r =
     Next (s\<lparr>lineNumber := lineNumber s + 1,
             stderr := stderr s @ row_report tr (debug cfg) hc (lineNumber s + 1) r,
             stdout := stdout s @ [question],
             stdin := tl (stdin s),
             written := written s @ [output_row tr hc r]\<rparr>)"
  using assms
  by (cases "stdin s")
     (simp_all add: body_def ready_def trim_strip_bom row_step_def Let_def row_result_def
      row_cells_def output_row_def write_row_def row_report_def ask_def next_answer_def
      question_def)

lemma body_failure_decline:
  assumes "ready hc s" and "\<not> blank r" and "row_result tr hc r = Inl msg"
    and "\<not> skipErrors cfg" and "stdin s \<noteq> []" and "\<not> promptToContinue (next_answer s)"
  shows "body tr cfg s r =
     Break (s\<lparr>lineNumber := lineNumber s + 1,
             stderr := stderr s @ row_report tr (debug cfg) hc (lineNumber s + 1) r,
             stdout := stdout s @ [question],
             stdin := tl (stdin s),
             exitCode := 1\<rparr>)"
  using assms
  by (cases "stdin s")
     (simp_all add: body_def ready_def trim_strip_bom row_step_def Let_def row_result_def
      row_cells_def write_row_def row_report_def ask_def next_answer_def question_def)

lemma body_failure_unanswered:
  assumes "ready hc s" and "\<not> blank r" and "row_result tr hc r = Inl msg"
    and "\<not> skipErrors cfg" and "stdin s = []"
  shows "body tr cfg s r =
     Stall (s\<lparr>lineNumber := lineNumber s + 1,
             stderr := stderr s @ row_report tr (debug cfg) hc (lineNumber s + 1) r,
             stdout := stdout s @ [question]\<rparr>)"
  using assms
  by (simp add: body_def ready_def trim_strip_bom row_step_def Let_def row_result_def
      row_cells_def row_report_def ask_def question_def)

section \<open>The loop of the script with error handling\<close>

lemma for_await_append:
  "for_await b (xs @ ys) s =
     (case for_await b xs s of Next s' \<Rightarrow> for_await b ys s' | Break s' \<Rightarrow> Break s'
      | Exit s' code \<Rightarrow> Exit s' code | Throw s' e \<Rightarrow> Throw s' e | Stall s' \<Rightarrow> Stall s')"
  by (induction xs arbitrary: s) (auto split: flow.splits)

lemma body_cases [consumes 1, case_names Blank Success Skip Accept Decline Unanswered]:
  assumes "ready hc s"
  obtains (Blank) "blank r" "body tr cfg s r = Next (s\<lparr>lineNumber := lineNumber s + 1\<rparr>)"
  | (Success) tib where "\<not> blank r" "row_result tr hc r = Inr tib"
      "body tr cfg s r =
         Next (s\<lparr>lineNumber := lineNumber s + 1, written := written s @ [output_row tr hc r]\<rparr>)"
  | (Skip) msg where "\<not> blank r" "row_result tr hc r = Inl msg" "skipErrors cfg"
      "body tr cfg s r =
         Next (s\<lparr>lineNumber := lineNumber s + 1,
             stderr := stderr s @ row_report tr (debug cfg) hc (lineNumber s + 1) r,
             written := written s @ [output_row tr hc r]\<rparr>)"
  | (Accept) msg where "\<not> blank r" "row_result tr hc r = Inl msg" "\<not> skipErrors cfg"
      "stdin s \<noteq> []" "promptToContinue (next_answer s)"
      "body tr cfg s r =
         Next (s\<lparr>lineNumber := lineNumber s + 1,
             stderr := stderr s @ row_report tr (debug cfg) hc (lineNumber s + 1) r,
             stdout := stdout s @ [question],
             stdin := tl (stdin s),
             written := written s @ [output_row tr hc r]\<rparr>)"
  | (Decline) msg where "\<not> blank r" "row_result tr hc r = Inl msg" "\<not> skipErrors cfg"
      "stdin s \<noteq> []" "\<not> promptToContinue (next_answer s)"
      "body tr cfg s r =
         Break (s\<lparr>lineNumber := lineNumber s + 1,
             stderr := stderr s @ row_report tr (debug cfg) hc (lineNumber s + 1) r,
             stdout := stdout s @ [question],
             stdin := tl (stdin s),
             exitCode := 1\<rparr>)"
  | (Unanswered) msg where "\<not> blank r" "row_result tr hc r = Inl msg" "\<not> skipErrors cfg"
      "stdin s = []"
      "body tr cfg s r =
         Stall (s\<lparr>lineNumber := lineNumber s + 1,
             stderr := stderr s @ row_report tr (debug cfg) hc (lineNumber s + 1) r,
             stdout := stdout s @ [question]\<rparr>)"
proof (cases "blank r")
  case True
  with assms Blank show ?thesis by (simp add: body_blank)
next
  case nb: False
  show ?thesis
  proof (cases "row_result tr hc r")
    case (Inr tib)
    with assms nb Success show ?thesis by (simp add: body_success)
  next
    case (Inl msg)
    show ?thesis
    proof (cases "skipErrors cfg")
      case True
      from body_failure_skip [OF assms nb Inl True] nb Inl True Skip show ?thesis by blast
    next
      case ns: False
      show ?thesis
      proof (cases "stdin s = []")
        case True
        from body_failure_unanswered [OF assms nb Inl ns True] nb Inl ns True Unanswered
        show ?thesis by blast
      next
        case ne: False
        show ?thesis
        proof (cases "promptToContinue (next_answer s)")
          case True
          from body_failure_accept [OF assms nb Inl ns ne True] nb Inl ns ne True Accept
          show ?thesis by blast
        next
          case False
          from body_failure_decline [OF assms nb Inl ns ne False] nb Inl ns ne False Decline
          show ?thesis by blast
        qed
      qed
    qed
  qed
qed

lemma body_Next:
  assumes "ready hc s" and "body tr cfg s r = Next s'"
  shows "ready hc s' \<and> lineNumber s' = lineNumber s + 1 \<and> exitCode s' = exitCode s
    \<and> written s' = written s @ (if blank r then [] else [output_row tr hc r])"
  using assms(1)
proof (cases rule: body_cases [where r = r and tr = tr and cfg = cfg])
  case Blank
  with assms show ?thesis by (auto simp: ready_def)
next
  case (Success tib)
  with assms show ?thesis by (auto simp: ready_def)
next
  case (Skip msg)
  with assms show ?thesis by (auto simp: ready_def)
next
  case (Accept msg)
  with assms show ?thesis by (auto simp: ready_def)
next
  case (Decline msg)
  with assms show ?thesis by simp
next
  case (Unanswered msg)
  with assms show ?thesis by simp
qed

lemma body_Break:
  assumes "ready hc s" and "body tr cfg s r = Break s'"
  shows "written s' = written s \<and> exitCode s' = 1 \<and> lineNumber s' = lineNumber s + 1
    \<and> \<not> skipErrors cfg \<and> \<not> blank r \<and> isl (row_result tr hc r)
    \<and> stdin s \<noteq> [] \<and> \<not> promptToContinue (next_answer s)"
  using assms(1)
proof (cases rule: body_cases [where r = r and tr = tr and cfg = cfg])
  case (Decline msg)
  with assms show ?thesis by auto
qed (use assms in simp_all)

lemma body_Stall:
  assumes "ready hc s" and "body tr cfg s r = Stall s'"
  shows "written s' = written s \<and> exitCode s' = exitCode s
    \<and> lineNumber s' = lineNumber s + 1
    \<and> \<not> skipErrors cfg \<and> \<not> blank r \<and> isl (row_result tr hc r) \<and> stdin s = []"
  using assms(1)
proof (cases rule: body_cases [where r = r and tr = tr and cfg = cfg])
  case (Unanswered msg)
  with assms show ?thesis by auto
qed (use assms in simp_all)

lemma body_no_Exit: "ready hc s \<Longrightarrow> body tr cfg s r \<noteq> Exit s' code"
  by (erule body_cases [of hc s r tr cfg]) simp_all

lemma body_no_Throw: "body tr cfg s r \<noteq> Throw s' e"
  by (auto simp: body_def header_step_def row_step_def Let_def
      split: sum.splits prod.splits option.splits if_splits)

lemma loop_Next:
  assumes "ready hc s" and "for_await (body tr cfg) ls s = Next s'"
  shows "ready hc s' \<and> lineNumber s' = lineNumber s + length ls \<and> exitCode s' = exitCode s
    \<and> written s' = written s @ map (output_row tr hc) (filter (\<lambda>r. \<not> blank r) ls)"
  using assms
proof (induction ls arbitrary: s)
  case Nil
  then show ?case by simp
next
  case (Cons r ls)
  from Cons.prems(2) obtain s1 where b: "body tr cfg s r = Next s1"
    and l: "for_await (body tr cfg) ls s1 = Next s'"
    by (auto split: flow.splits)
  note st = body_Next [OF Cons.prems(1) b]
  from st have "ready hc s1" by blast
  from Cons.IH [OF this l] st show ?case by auto
qed

lemma loop_Break:
  assumes "ready hc s" and "for_await (body tr cfg) ls s = Break s'"
  shows "\<exists>pre row post. ls = pre @ row # post
    \<and> written s' = written s @ map (output_row tr hc) (filter (\<lambda>r. \<not> blank r) pre)
    \<and> lineNumber s' = lineNumber s + length pre + 1
    \<and> exitCode s' = 1 \<and> \<not> skipErrors cfg \<and> \<not> blank row \<and> isl (row_result tr hc row)"
  using assms
proof (induction ls arbitrary: s)
  case Nil
  then show ?case by simp
next
  case (Cons r ls)
  show ?case
  proof (cases "body tr cfg s r")
    case (Next s1)
    with Cons.prems(2) have l: "for_await (body tr cfg) ls s1 = Break s'" by simp
    note st = body_Next [OF Cons.prems(1) Next]
    from st have "ready hc s1" by blast
    from Cons.IH [OF this l] obtain pre row post where p: "ls = pre @ row # post"
      "written s' = written s1 @ map (output_row tr hc) (filter (\<lambda>r. \<not> blank r) pre)"
      "lineNumber s' = lineNumber s1 + length pre + 1"
      "exitCode s' = 1" "\<not> skipErrors cfg" "\<not> blank row" "isl (row_result tr hc row)"
      by blast
    have "r # ls = (r # pre) @ row # post" using p(1) by simp
    moreover have "written s' = written s
        @ map (output_row tr hc) (filter (\<lambda>r. \<not> blank r) (r # pre))"
      using p(2) st by simp
    moreover have "lineNumber s' = lineNumber s + length (r # pre) + 1"
      using p(3) st by simp
    ultimately show ?thesis using p(4-7) by blast
  next
    case (Break s1)
    with Cons.prems(2) have "s1 = s'" by simp
    with Break have b: "body tr cfg s r = Break s'" by simp
    note st = body_Break [OF Cons.prems(1) b]
    have "r # ls = [] @ r # ls" by simp
    moreover have "written s' = written s @ map (output_row tr hc) (filter (\<lambda>r. \<not> blank r) [])"
      using st by simp
    moreover have "lineNumber s' = lineNumber s + length ([]::jsstring list) + 1"
      using st by simp
    ultimately show ?thesis using st by blast
  next
    case (Exit s1 code)
    with Cons.prems(2) show ?thesis by simp
  next
    case (Throw s1 e)
    with Cons.prems(2) show ?thesis by simp
  next
    case (Stall s1)
    with Cons.prems(2) show ?thesis by simp
  qed
qed

lemma loop_Stall:
  assumes "ready hc s" and "for_await (body tr cfg) ls s = Stall s'"
  shows "\<exists>pre row post. ls = pre @ row # post
    \<and> written s' = written s @ map (output_row tr hc) (filter (\<lambda>r. \<not> blank r) pre)
    \<and> lineNumber s' = lineNumber s + length pre + 1
    \<and> exitCode s' = exitCode s \<and> \<not> skipErrors cfg \<and> \<not> blank row
    \<and> isl (row_result tr hc row)"
  using assms
proof (induction ls arbitrary: s)
  case Nil
  then show ?case by simp
next
  case (Cons r ls)
  show ?case
  proof (cases "body tr cfg s r")
    case (Next s1)
    with Cons.prems(2) have l: "for_await (body tr cfg) ls s1 = Stall s'" by simp
    note st = body_Next [OF Cons.prems(1) Next]
    from st have "ready hc s1" by blast
    from Cons.IH [OF this l] obtain pre row post where p: "ls = pre @ row # post"
      "written s' = written s1 @ map (output_row tr hc) (filter (\<lambda>r. \<not> blank r) pre)"
      "lineNumber s' = lineNumber s1 + length pre + 1"
      "exitCode s' = exitCode s1" "\<not> skipErrors cfg" "\<not> blank row"
      "isl (row_result tr hc row)"
      by blast
    have "r # ls = (r # pre) @ row # post" using p(1) by simp
    moreover have "written s' = written s
        @ map (output_row tr hc) (filter (\<lambda>r. \<not> blank r) (r # pre))"
      using p(2) st by simp
    moreover have "lineNumber s' = lineNumber s + length (r # pre) + 1"
      using p(3) st by simp
    moreover have "exitCode s' = exitCode s" using p(4) st by simp
    ultimately show ?thesis using p(5-7) by blast
  next
    case (Stall s1)
    with Cons.prems(2) have "s1 = s'" by simp
    with Stall have b: "body tr cfg s r = Stall s'" by simp
    note st = body_Stall [OF Cons.prems(1) b]
    have "r # ls = [] @ r # ls" by simp
    moreover have "written s' = written s @ map (output_row tr hc) (filter (\<lambda>r. \<not> blank r) [])"
      using st by simp
    moreover have "lineNumber s' = lineNumber s + length ([]::jsstring list) + 1"
      using st by simp
    ultimately show ?thesis using st by blast
  next
    case (Exit s1 code)
    with Cons.prems(2) show ?thesis by simp
  next
    case (Throw s1 e)
    with Cons.prems(2) show ?thesis by simp
  next
    case (Break s1)
    with Cons.prems(2) show ?thesis by simp
  qed
qed

lemma loop_no_Exit: "ready hc s \<Longrightarrow> for_await (body tr cfg) ls s \<noteq> Exit s' code"
proof (induction ls arbitrary: s)
  case Nil
  show ?case by simp
next
  case (Cons r ls)
  show ?case
  proof (cases "body tr cfg s r")
    case (Next s1)
    with body_Next [OF Cons.prems Next] Cons.IH [of s1] show ?thesis by simp
  next
    case (Exit s1 c)
    with body_no_Exit [OF Cons.prems] show ?thesis by blast
  qed simp_all
qed

lemma loop_no_Throw: "for_await (body tr cfg) ls s \<noteq> Throw s' e"
proof (induction ls arbitrary: s)
  case Nil
  show ?case by simp
next
  case (Cons r ls)
  show ?case
    using Cons.IH body_no_Throw [of tr cfg s r] by (cases "body tr cfg s r") simp_all
qed

lemma ready_after_header: "ready (header_fields h) ((after_header cfg h)\<lparr>lineNumber := n\<rparr>)"
  by (simp add: ready_def after_header_def)

lemma main_with_header:
  assumes "input cfg = Some (h # rest)" and "js ''vocalized'' \<in> set (header_fields h)"
  shows "main tr cfg =
     complete cfg (for_await (body tr cfg) rest ((after_header cfg h)\<lparr>lineNumber := 1\<rparr>))"
proof -
  have "\<not> headerProcessed (initial cfg)" by (simp add: initial_def)
  from body_header_ok [OF this assms(2)]
  have "body tr cfg (initial cfg) h = Next ((after_header cfg h)\<lparr>lineNumber := 1\<rparr>)"
    by (simp add: after_header_def initial_def)
  then show ?thesis using assms(1) by (simp add: main_def)
qed

lemma main_without_header:
  assumes "input cfg = Some (h # rest)" and "js ''vocalized'' \<notin> set (header_fields h)"
  shows "main tr cfg =
     \<lparr>outfile = [], errors = [HeaderMissing], console = [], status = 1, uncaught = None\<rparr>"
proof -
  have "\<not> headerProcessed (initial cfg)" by (simp add: initial_def)
  from body_header_missing [OF this assms(2)] assms(1) show ?thesis
    by (simp add: main_def complete_def leave_def initial_def)
qed

section \<open>The loop of the script without error handling\<close>

lemma body_ts_header_ok:
  assumes "\<not> headerProcessed s" and "js ''vocalized'' \<in> set (header_fields h)"
  shows "body_ts tr s h =
     Next (s\<lparr>headerProcessed := True, vocalizedIdx := indexOf (header_fields h) (js ''vocalized''),
             headerCells := header_fields h,
             written := written s @ [header_row (header_fields h)]\<rparr>)"
  using assms
  by (simp add: body_ts_def header_step_def Let_def indexOf_absent header_fields_def
      write_row_def header_row_def)

lemma body_ts_header_missing:
  assumes "\<not> headerProcessed s" and "js ''vocalized'' \<notin> set (header_fields h)"
  shows "body_ts tr s h =
     Exit (s\<lparr>vocalizedIdx := - 1, headerCells := header_fields h,
             stderr := stderr s @ [HeaderMissing]\<rparr>) 1"
  using assms
  by (simp add: body_ts_def header_step_def Let_def indexOf_absent header_fields_def)

lemma body_ts_row:
  assumes "ready hc s"
  shows "body_ts tr s r =
     (if blank r then Next s
      else case row_result tr hc r of
             Inr tib \<Rightarrow> Next (s\<lparr>written := written s @ [output_row tr hc r]\<rparr>)
           | Inl msg \<Rightarrow> Throw s msg)"
  using assms
  by (simp add: body_ts_def ready_def trim_strip_bom row_step_ts_def Let_def row_result_def
      row_cells_def output_row_def write_row_def split: sum.splits)

lemma loop_ts_Next:
  assumes "ready hc s" and "for_await (body_ts tr) ls s = Next s'"
  shows "written s' = written s @ map (output_row tr hc) (filter (\<lambda>r. \<not> blank r) ls)"
  using assms
proof (induction ls arbitrary: s)
  case Nil
  then show ?case by simp
next
  case (Cons r ls)
  from Cons.prems(2) obtain s1 where b: "body_ts tr s r = Next s1"
    and l: "for_await (body_ts tr) ls s1 = Next s'"
    by (auto split: flow.splits)
  from b Cons.prems(1) have s1: "ready hc s1
      \<and> written s1 = written s @ (if blank r then [] else [output_row tr hc r])"
    by (auto simp: body_ts_row [OF Cons.prems(1)] ready_def split: if_splits sum.splits)
  then have "ready hc s1" by blast
  from Cons.IH [OF this l] s1 show ?case by auto
qed

lemma loop_ts_Throw:
  assumes "ready hc s" and "for_await (body_ts tr) ls s = Throw s' e"
  shows "\<exists>pre row post. ls = pre @ row # post
    \<and> written s' = written s @ map (output_row tr hc) (filter (\<lambda>r. \<not> blank r) pre)
    \<and> \<not> blank row \<and> row_result tr hc row = Inl e"
  using assms
proof (induction ls arbitrary: s)
  case Nil
  then show ?case by simp
next
  case (Cons r ls)
  show ?case
  proof (cases "body_ts tr s r")
    case (Next s1)
    with Cons.prems(2) have l: "for_await (body_ts tr) ls s1 = Throw s' e" by simp
    from Next Cons.prems(1) have s1: "ready hc s1
        \<and> written s1 = written s @ (if blank r then [] else [output_row tr hc r])"
      by (auto simp: body_ts_row [OF Cons.prems(1)] ready_def split: if_splits sum.splits)
    then have "ready hc s1" by blast
    from Cons.IH [OF this l] obtain pre row post where p: "ls = pre @ row # post"
      "written s' = written s1 @ map (output_row tr hc) (filter (\<lambda>r. \<not> blank r) pre)"
      "\<not> blank row" "row_result tr hc row = Inl e"
      by blast
    have "r # ls = (r # pre) @ row # post" using p(1) by simp
    moreover have "written s' = written s
        @ map (output_row tr hc) (filter (\<lambda>r. \<not> blank r) (r # pre))"
      using p(2) s1 by simp
    ultimately show ?thesis using p(3,4) by blast
  next
    case (Throw s1 e1)
    with Cons.prems(2) have eq: "s1 = s'" "e1 = e" by simp_all
    from Throw eq Cons.prems(1) have "\<not> blank r \<and> row_result tr hc r = Inl e \<and> s' = s"
      by (auto simp: body_ts_row [OF Cons.prems(1)] split: if_splits sum.splits)
    moreover have "r # ls = [] @ r # ls" by simp
    ultimately show ?thesis by fastforce
  next
    case (Break s1)
    with Cons.prems(2) show ?thesis by simp
  next
    case (Exit s1 code)
    with Cons.prems(2) show ?thesis by simp
  next
    case (Stall s1)
    with Cons.prems(2) show ?thesis by simp
  qed
qed

lemma loop_ts_no_stop:
  "ready hc s \<Longrightarrow> for_await (body_ts tr) ls s \<noteq> Exit s' code
     \<and> for_await (body_ts tr) ls s \<noteq> Break s' \<and> for_await (body_ts tr) ls s \<noteq> Stall s'"
proof (induction ls arbitrary: s)
  case Nil
  show ?case by simp
next
  case (Cons r ls)
  show ?case
  proof (cases "body_ts tr s r")
    case (Next s1)
    then have "ready hc s1"
      using Cons.prems
      by (auto simp: body_ts_row [OF Cons.prems] ready_def split: if_splits sum.splits)
    with Cons.IH [of s1] Next show ?thesis by simp
  qed (use Cons.prems in \<open>auto simp: body_ts_row [OF Cons.prems] split: if_splits sum.splits\<close>)
qed

lemma main_ts_with_header:
  assumes "input cfg = Some (h # rest)" and "js ''vocalized'' \<in> set (header_fields h)"
  shows "main_ts tr cfg =
     (case for_await (body_ts tr) rest (after_header cfg h) of
        Next s \<Rightarrow> leave (s\<lparr>stdout := stdout s @ [Wrote (outputPath cfg)]\<rparr>) 0
      | Break s \<Rightarrow> leave (s\<lparr>stdout := stdout s @ [Wrote (outputPath cfg)]\<rparr>) 0
      | Exit s code \<Rightarrow> leave s code
      | Throw s e \<Rightarrow> (leave s 1)\<lparr>uncaught := Some e\<rparr>
      | Stall s \<Rightarrow> leave s (exitCode s))"
proof -
  have "\<not> headerProcessed (initial cfg)" by (simp add: initial_def)
  from body_ts_header_ok [OF this assms(2)]
  have "body_ts tr (initial cfg) h = Next (after_header cfg h)"
    by (simp add: after_header_def initial_def)
  then show ?thesis using assms(1) by (simp add: main_ts_def)
qed

lemma main_ts_without_header:
  assumes "input cfg = Some (h # rest)" and "js ''vocalized'' \<notin> set (header_fields h)"
  shows "main_ts tr cfg =
     \<lparr>outfile = [], errors = [HeaderMissing], console = [], status = 1, uncaught = None\<rparr>"
proof -
  have "\<not> headerProcessed (initial cfg)" by (simp add: initial_def)
  from body_ts_header_missing [OF this assms(2)] assms(1) show ?thesis
    by (simp add: main_ts_def leave_def initial_def)
qed

section \<open>Whole runs\<close>

lemma main_cases [consumes 2, case_names Completed Aborted Unanswered]:
  assumes "input cfg = Some (h # rest)" and "js ''vocalized'' \<in> set (header_fields h)"
  obtains (Completed) s' where
      "for_await (body tr cfg) rest ((after_header cfg h)\<lparr>lineNumber := 1\<rparr>) = Next s'"
      "main tr cfg = leave (s'\<lparr>stdout := stdout s' @ [Wrote (outputPath cfg)]\<rparr>) 0"
      "written s' = header_row (header_fields h)
         # map (output_row tr (header_fields h)) (filter (\<lambda>r. \<not> blank r) rest)"
  | (Aborted) s' pre row post where
      "for_await (body tr cfg) rest ((after_header cfg h)\<lparr>lineNumber := 1\<rparr>) = Break s'"
      "main tr cfg = leave (s'\<lparr>stderr := stderr s' @ [CompletedWithErrors]\<rparr>) 1"
      "rest = pre @ row # post"
      "written s' = header_row (header_fields h)
         # map (output_row tr (header_fields h)) (filter (\<lambda>r. \<not> blank r) pre)"
      "\<not> skipErrors cfg" "\<not> blank row" "isl (row_result tr (header_fields h) row)"
  | (Unanswered) s' pre row post where
      "for_await (body tr cfg) rest ((after_header cfg h)\<lparr>lineNumber := 1\<rparr>) = Stall s'"
      "main tr cfg = leave s' 0"
      "rest = pre @ row # post"
      "written s' = header_row (header_fields h)
         # map (output_row tr (header_fields h)) (filter (\<lambda>r. \<not> blank r) pre)"
      "\<not> skipErrors cfg" "\<not> blank row" "isl (row_result tr (header_fields h) row)"
proof -
  let ?s0 = "(after_header cfg h)\<lparr>lineNumber := 1\<rparr>"
  have r: "ready (header_fields h) ?s0" by (rule ready_after_header)
  have m: "main tr cfg = complete cfg (for_await (body tr cfg) rest ?s0)"
    by (rule main_with_header [OF assms])
  have w0: "written ?s0 = [header_row (header_fields h)]" "exitCode ?s0 = 0"
    by (simp_all add: after_header_def initial_def)
  show thesis
  proof (cases "for_await (body tr cfg) rest ?s0")
    case (Next s')
    note f = loop_Next [OF r Next]
    have "main tr cfg = finish cfg s'"
      unfolding m Next by (simp add: complete_def)
    then have "main tr cfg = leave (s'\<lparr>stdout := stdout s' @ [Wrote (outputPath cfg)]\<rparr>) 0"
      using f w0 by (simp add: finish_def)
    moreover have "written s' = header_row (header_fields h)
         # map (output_row tr (header_fields h)) (filter (\<lambda>r. \<not> blank r) rest)"
      using f w0 by simp
    ultimately show ?thesis using Next Completed by blast
  next
    case (Break s')
    from loop_Break [OF r Break] obtain pre row post where p: "rest = pre @ row # post"
      "written s' = written ?s0
         @ map (output_row tr (header_fields h)) (filter (\<lambda>r. \<not> blank r) pre)"
      "exitCode s' = 1" "\<not> skipErrors cfg" "\<not> blank row"
      "isl (row_result tr (header_fields h) row)"
      by blast
    have "main tr cfg = finish cfg s'"
      unfolding m Break by (simp add: complete_def)
    then have "main tr cfg = leave (s'\<lparr>stderr := stderr s' @ [CompletedWithErrors]\<rparr>) 1"
      using p(3) by (simp add: finish_def)
    moreover have "written s' = header_row (header_fields h)
         # map (output_row tr (header_fields h)) (filter (\<lambda>r. \<not> blank r) pre)"
      using p(2) w0 by simp
    ultimately show ?thesis using Break p(1,4,5,6) Aborted by blast
  next
    case (Stall s')
    from loop_Stall [OF r Stall] obtain pre row post where p: "rest = pre @ row # post"
      "written s' = written ?s0
         @ map (output_row tr (header_fields h)) (filter (\<lambda>r. \<not> blank r) pre)"
      "exitCode s' = exitCode ?s0" "\<not> skipErrors cfg" "\<not> blank row"
      "isl (row_result tr (header_fields h) row)"
      by blast
    have "main tr cfg = leave s' (exitCode s')"
      unfolding m Stall by (simp add: complete_def)
    then have "main tr cfg = leave s' 0"
      using p(3) w0 by simp
    moreover have "written s' = header_row (header_fields h)
         # map (output_row tr (header_fields h)) (filter (\<lambda>r. \<not> blank r) pre)"
      using p(2) w0 by simp
    ultimately show ?thesis using Stall p(1,4,5,6) Unanswered by blast
  next
    case (Exit s' code)
    with loop_no_Exit [OF r] show ?thesis by blast
  next
    case (Throw s' e)
    with loop_no_Throw show ?thesis by blast
  qed
qed

lemma main_ts_cases [consumes 2, case_names Completed Crashed]:
  assumes "input cfg = Some (h # rest)" and "js ''vocalized'' \<in> set (header_fields h)"
  obtains (Completed) s' where
      "main_ts tr cfg = leave (s'\<lparr>stdout := stdout s' @ [Wrote (outputPath cfg)]\<rparr>) 0"
      "written s' = header_row (header_fields h)
         # map (output_row tr (header_fields h)) (filter (\<lambda>r. \<not> blank r) rest)"
  | (Crashed) s' e pre row post where
      "main_ts tr cfg = (leave s' 1)\<lparr>uncaught := Some e\<rparr>"
      "rest = pre @ row # post"
      "written s' = header_row (header_fields h)
         # map (output_row tr (header_fields h)) (filter (\<lambda>r. \<not> blank r) pre)"
      "\<not> blank row" "row_result tr (header_fields h) row = Inl e"
proof -
  let ?s0 = "after_header cfg h"
  have r: "ready (header_fields h) ?s0"
    using ready_after_header [where h = h and cfg = cfg and n = "lineNumber (after_header cfg h)"]
    by simp
  note m = main_ts_with_header [OF assms, of tr]
  have w0: "written ?s0 = [header_row (header_fields h)]"
    by (simp add: after_header_def)
  show thesis
  proof (cases "for_await (body_ts tr) rest ?s0")
    case (Next s')
    from loop_ts_Next [OF r Next] w0 m Next Completed show ?thesis by simp
  next
    case (Throw s' e)
    from loop_ts_Throw [OF r Throw] obtain pre row post where p: "rest = pre @ row # post"
      "written s' = written ?s0
         @ map (output_row tr (header_fields h)) (filter (\<lambda>r. \<not> blank r) pre)"
      "\<not> blank row" "row_result tr (header_fields h) row = Inl e"
      by blast
    have "main_ts tr cfg = (leave s' 1)\<lparr>uncaught := Some e\<rparr>"
      using m Throw by simp
    moreover have "written s' = header_row (header_fields h)
         # map (output_row tr (header_fields h)) (filter (\<lambda>r. \<not> blank r) pre)"
      using p(2) w0 by simp
    ultimately show ?thesis using p(1,3,4) Crashed by blast
  next
    case (Exit s' code)
    with loop_ts_no_stop [OF r] show ?thesis by blast
  next
    case (Break s')
    with loop_ts_no_stop [OF r] show ?thesis by blast
  next
    case (Stall s')
    with loop_ts_no_stop [OF r] show ?thesis by blast
  qed
qed

lemma report_lines:
  "CompletedWithErrors \<notin> set (report tr dbg hc n cells line heb msg)
   \<and> Unhandled e \<notin> set (report tr dbg hc n cells line heb msg)"
  by (auto simp: report_def Let_def split: option.splits)

lemma row_report_lines:
  "CompletedWithErrors \<notin> set (row_report tr dbg hc n r)
   \<and> Unhandled e \<notin> set (row_report tr dbg hc n r)"
  using report_lines by (simp add: row_report_def split: sum.splits)

lemma body_channels:
  assumes "ready hc s" and "state_of (body tr cfg s r) = s'"
    and "CompletedWithErrors \<notin> set (stderr s)" and "\<forall>e. Unhandled e \<notin> set (stderr s)"
    and "\<forall>p. Wrote p \<notin> set (stdout s)"
  shows "CompletedWithErrors \<notin> set (stderr s') \<and> (\<forall>e. Unhandled e \<notin> set (stderr s'))
    \<and> (\<forall>p. Wrote p \<notin> set (stdout s'))"
  using assms(1)
proof (cases rule: body_cases [where r = r and tr = tr and cfg = cfg])
  case Blank
  with assms show ?thesis by auto
next
  case (Success tib)
  with assms show ?thesis by auto
next
  case (Skip msg)
  with assms row_report_lines show ?thesis by auto
next
  case (Accept msg)
  with assms row_report_lines show ?thesis by (auto simp: question_def)
next
  case (Decline msg)
  with assms row_report_lines show ?thesis by (auto simp: question_def)
next
  case (Unanswered msg)
  with assms row_report_lines show ?thesis by (auto simp: question_def)
qed

lemma loop_channels:
  assumes "ready hc s"
    and "CompletedWithErrors \<notin> set (stderr s)" and "\<forall>e. Unhandled e \<notin> set (stderr s)"
    and "\<forall>p. Wrote p \<notin> set (stdout s)"
  shows "CompletedWithErrors \<notin> set (stderr (state_of (for_await (body tr cfg) ls s)))
    \<and> (\<forall>e. Unhandled e \<notin> set (stderr (state_of (for_await (body tr cfg) ls s))))
    \<and> (\<forall>p. Wrote p \<notin> set (stdout (state_of (for_await (body tr cfg) ls s))))"
  using assms
proof (induction ls arbitrary: s)
  case Nil
  then show ?case by simp
next
  case (Cons r ls)
  note ch = body_channels [OF Cons.prems(1) refl Cons.prems(2,3,4), where tr = tr and cfg = cfg and r = r]
  show ?case
  proof (cases "body tr cfg s r")
    case (Next s1)
    from body_Next [OF Cons.prems(1) Next] have "ready hc s1" by blast
    from Cons.IH [OF this] ch Next show ?thesis by simp
  next
    case (Break s1)
    with ch show ?thesis by simp
  next
    case (Exit s1 code)
    with ch show ?thesis by simp
  next
    case (Throw s1 e)
    with ch show ?thesis by simp
  next
    case (Stall s1)
    with ch show ?thesis by simp
  qed
qed

text \<open>
  The questions on standard output against the failure diagnostics on the error channel:
  skip mode asks nothing; interactive mode asks once for every rejected row.
\<close>

lemma diagnostic_lines_append:
  "diagnostic_lines (xs @ ys) = diagnostic_lines xs @ diagnostic_lines ys"
  by (induction xs rule: diagnostic_lines.induct) simp_all

lemma diagnostic_lines_row_report:
  "row_result tr hc r = Inl msg \<Longrightarrow> diagnostic_lines (row_report tr dbg hc n r) = [n]"
  by (simp add: row_report_def report_def Let_def split: option.splits)

lemma body_questions:
  assumes "ready hc s" and "state_of (body tr cfg s r) = s'"
  shows "(skipErrors cfg \<longrightarrow> stdout s' = stdout s)
    \<and> (\<not> skipErrors cfg \<longrightarrow>
          count_list (stdout s') question + length (diagnostic_lines (stderr s))
            = count_list (stdout s) question + length (diagnostic_lines (stderr s')))"
  using assms(1)
proof (cases rule: body_cases [where r = r and tr = tr and cfg = cfg])
  case Blank
  with assms show ?thesis by auto
next
  case (Success tib)
  with assms show ?thesis by auto
next
  case (Skip msg)
  with assms show ?thesis by auto
next
  case (Accept msg)
  with assms diagnostic_lines_row_report [OF Accept(2)] show ?thesis
    by (auto simp: diagnostic_lines_append)
next
  case (Decline msg)
  with assms diagnostic_lines_row_report [OF Decline(2)] show ?thesis
    by (auto simp: diagnostic_lines_append)
next
  case (Unanswered msg)
  with assms diagnostic_lines_row_report [OF Unanswered(2)] show ?thesis
    by (auto simp: diagnostic_lines_append)
qed

lemma loop_questions:
  assumes "ready hc s"
  shows "(skipErrors cfg \<longrightarrow> stdout (state_of (for_await (body tr cfg) ls s)) = stdout s)
    \<and> (\<not> skipErrors cfg \<longrightarrow>
          count_list (stdout (state_of (for_await (body tr cfg) ls s))) question
              + length (diagnostic_lines (stderr s))
            = count_list (stdout s) question
              + length (diagnostic_lines (stderr (state_of (for_await (body tr cfg) ls s)))))"
  using assms
proof (induction ls arbitrary: s)
  case Nil
  then show ?case by simp
next
  case (Cons r ls)
  note q = body_questions [OF Cons.prems refl, where tr = tr and cfg = cfg and r = r]
  show ?case
  proof (cases "body tr cfg s r")
    case (Next s1)
    from body_Next [OF Cons.prems Next] have "ready hc s1" by blast
    from Cons.IH [OF this] q Next show ?thesis by auto
  next
    case (Break s1)
    with q show ?thesis by simp
  next
    case (Exit s1 code)
    with q show ?thesis by simp
  next
    case (Throw s1 e)
    with q show ?thesis by simp
  next
    case (Stall s1)
    with q show ?thesis by simp
  qed
qed

lemma run_state:
  fixes tr cfg h rest
  defines "s' \<equiv> state_of (for_await (body tr cfg) rest ((after_header cfg h)\<lparr>lineNumber := 1\<rparr>))"
  shows "CompletedWithErrors \<notin> set (stderr s')"
    and "\<forall>e. Unhandled e \<notin> set (stderr s')"
    and "\<forall>p. Wrote p \<notin> set (stdout s')"
    and "skipErrors cfg \<longrightarrow> stdout s' = []"
    and "\<not> skipErrors cfg \<longrightarrow>
           count_list (stdout s') question = length (diagnostic_lines (stderr s'))"
proof -
  let ?s0 = "(after_header cfg h)\<lparr>lineNumber := 1\<rparr>"
  have r: "ready (header_fields h) ?s0" by (rule ready_after_header)
  have e: "stderr ?s0 = []" "stdout ?s0 = []"
    by (simp_all add: after_header_def initial_def)
  have c: "CompletedWithErrors \<notin> set (stderr ?s0)" "\<forall>e. Unhandled e \<notin> set (stderr ?s0)"
      "\<forall>p. Wrote p \<notin> set (stdout ?s0)"
    by (simp_all add: after_header_def initial_def)
  from loop_channels [OF r c, where tr = tr and cfg = cfg and ls = rest]
  show "CompletedWithErrors \<notin> set (stderr s')" "\<forall>e. Unhandled e \<notin> set (stderr s')"
      "\<forall>p. Wrote p \<notin> set (stdout s')"
    unfolding s'_def by blast+
  from loop_questions [OF r, where tr = tr and cfg = cfg and ls = rest]
  show "skipErrors cfg \<longrightarrow> stdout s' = []"
      "\<not> skipErrors cfg \<longrightarrow>
         count_list (stdout s') question = length (diagnostic_lines (stderr s'))"
    unfolding s'_def e by simp_all
qed

lemma take_filter_prefix:
  "take (length (filter P pre)) (filter P (pre @ row # post)) = filter P pre"
  by simp

text \<open>
  Claim C1. When the header has a \<^verbatim>\<open>vocalized\<close> column, the lines written after the
  header line are the lines of the first k non-blank input rows, in input order, for
  some k; k is the number of all non-blank rows when the run prints its
  clean-completion line (for the script without error handling: when no error
  escapes), which is the case whenever no row is rejected. The line of a row whose
  \<^verbatim>\<open>vocalized\<close> cell transliterates to \<open>tib\<close> is the row's cells, padded to the header
  length, with \<open>tib\<close> appended. Both scripts.
\<close>

theorem rows_in_order:
  assumes "input cfg = Some (h # rest)" and "js ''vocalized'' \<in> set (header_fields h)"
  shows "(\<exists>k \<le> length (filter (\<lambda>r. \<not> blank r) rest).
            outfile (main tr cfg) = header_row (header_fields h)
              # map (output_row tr (header_fields h)) (take k (filter (\<lambda>r. \<not> blank r) rest))
            \<and> (Wrote (outputPath cfg) \<in> set (console (main tr cfg))
                  \<longrightarrow> k = length (filter (\<lambda>r. \<not> blank r) rest)))
       \<and> (\<exists>k \<le> length (filter (\<lambda>r. \<not> blank r) rest).
            outfile (main_ts tr cfg) = header_row (header_fields h)
              # map (output_row tr (header_fields h)) (take k (filter (\<lambda>r. \<not> blank r) rest))
            \<and> (uncaught (main_ts tr cfg) = None \<longrightarrow> k = length (filter (\<lambda>r. \<not> blank r) rest)))
       \<and> ((\<forall>r\<in>set rest. \<not> blank r \<longrightarrow> \<not> isl (row_result tr (header_fields h) r)) \<longrightarrow>
            Wrote (outputPath cfg) \<in> set (console (main tr cfg))
            \<and> status (main tr cfg) = 0 \<and> uncaught (main_ts tr cfg) = None)
       \<and> (\<forall>r tib. row_result tr (header_fields h) r = Inr tib \<longrightarrow>
            output_row tr (header_fields h) r
              = joinCsvLine (row_cells (header_fields h) r @ [tib]) DELIM @ [NL])"
proof (intro conjI)
  let ?nb = "\<lambda>r. \<not> blank r"
  let ?hc = "header_fields h"
  note rs = run_state [where tr = tr and cfg = cfg and h = h and rest = rest]
  from assms show "\<exists>k \<le> length (filter ?nb rest).
      outfile (main tr cfg) = header_row ?hc # map (output_row tr ?hc) (take k (filter ?nb rest))
      \<and> (Wrote (outputPath cfg) \<in> set (console (main tr cfg))
            \<longrightarrow> k = length (filter ?nb rest))"
  proof (cases rule: main_cases [where tr = tr])
    case (Completed s')
    then have "outfile (main tr cfg)
        = header_row ?hc # map (output_row tr ?hc) (take (length (filter ?nb rest)) (filter ?nb rest))"
      by (simp add: leave_def)
    then show ?thesis by blast
  next
    case (Aborted s' pre row post)
    have "outfile (main tr cfg)
        = header_row ?hc # map (output_row tr ?hc) (take (length (filter ?nb pre)) (filter ?nb rest))"
      using Aborted(2,4) unfolding Aborted(3) take_filter_prefix by (simp add: leave_def)
    moreover have "Wrote (outputPath cfg) \<notin> set (console (main tr cfg))"
      using rs(3) unfolding Aborted(1,2) by (simp add: leave_def)
    moreover have "length (filter ?nb pre) \<le> length (filter ?nb rest)"
      unfolding Aborted(3) by simp
    ultimately show ?thesis by (intro exI [of _ "length (filter ?nb pre)"]) simp
  next
    case (Unanswered s' pre row post)
    have "outfile (main tr cfg)
        = header_row ?hc # map (output_row tr ?hc) (take (length (filter ?nb pre)) (filter ?nb rest))"
      using Unanswered(2,4) unfolding Unanswered(3) take_filter_prefix by (simp add: leave_def)
    moreover have "Wrote (outputPath cfg) \<notin> set (console (main tr cfg))"
      using rs(3) unfolding Unanswered(1,2) by (simp add: leave_def)
    moreover have "length (filter ?nb pre) \<le> length (filter ?nb rest)"
      unfolding Unanswered(3) by simp
    ultimately show ?thesis by (intro exI [of _ "length (filter ?nb pre)"]) simp
  qed
  from assms show "\<exists>k \<le> length (filter ?nb rest).
      outfile (main_ts tr cfg) = header_row ?hc # map (output_row tr ?hc) (take k (filter ?nb rest))
      \<and> (uncaught (main_ts tr cfg) = None \<longrightarrow> k = length (filter ?nb rest))"
  proof (cases rule: main_ts_cases [where tr = tr])
    case (Completed s')
    then have "outfile (main_ts tr cfg)
        = header_row ?hc # map (output_row tr ?hc) (take (length (filter ?nb rest)) (filter ?nb rest))"
      by (simp add: leave_def)
    then show ?thesis by blast
  next
    case (Crashed s' e pre row post)
    have "outfile (main_ts tr cfg)
        = header_row ?hc # map (output_row tr ?hc) (take (length (filter ?nb pre)) (filter ?nb rest))"
      using Crashed(1,3) unfolding Crashed(2) take_filter_prefix by (simp add: leave_def)
    moreover have "uncaught (main_ts tr cfg) \<noteq> None" using Crashed(1) by simp
    moreover have "length (filter ?nb pre) \<le> length (filter ?nb rest)"
      unfolding Crashed(2) by simp
    ultimately show ?thesis by (intro exI [of _ "length (filter ?nb pre)"]) auto
  qed
  show "(\<forall>r\<in>set rest. \<not> blank r \<longrightarrow> \<not> isl (row_result tr ?hc r)) \<longrightarrow>
      Wrote (outputPath cfg) \<in> set (console (main tr cfg))
      \<and> status (main tr cfg) = 0 \<and> uncaught (main_ts tr cfg) = None"
  proof
    assume ok: "\<forall>r\<in>set rest. \<not> blank r \<longrightarrow> \<not> isl (row_result tr ?hc r)"
    from assms have "Wrote (outputPath cfg) \<in> set (console (main tr cfg))
        \<and> status (main tr cfg) = 0"
    proof (cases rule: main_cases [where tr = tr])
      case (Completed s')
      then show ?thesis by (simp add: leave_def)
    next
      case (Aborted s' pre row post)
      with ok show ?thesis by auto
    next
      case (Unanswered s' pre row post)
      with ok show ?thesis by auto
    qed
    moreover from assms have "uncaught (main_ts tr cfg) = None"
    proof (cases rule: main_ts_cases [where tr = tr])
      case (Completed s')
      then show ?thesis by (simp add: leave_def)
    next
      case (Crashed s' e pre row post)
      with ok show ?thesis by auto
    qed
    ultimately show "Wrote (outputPath cfg) \<in> set (console (main tr cfg))
        \<and> status (main tr cfg) = 0 \<and> uncaught (main_ts tr cfg) = None" by blast
  qed
  show "\<forall>r tib. row_result tr ?hc r = Inr tib \<longrightarrow>
      output_row tr ?hc r = joinCsvLine (row_cells ?hc r @ [tib]) DELIM @ [NL]"
    by (simp add: output_row_success)
qed

lemma join_snoc: "cells \<noteq> [] \<Longrightarrow> join d (cells @ [t]) = join d cells @ d # t"
  by (induction d cells rule: join.induct) simp_all

lemma header_row_text:
  "header_row (header_fields h) = strip_cr (strip_bom h) @ js ''|tiberian'' @ [NL]"
proof -
  let ?l = "strip_cr (strip_bom h)"
  have t: "DELIM \<notin> set (js ''tiberian'')" by (simp add: js_def DELIM_def)
  have "\<forall>c\<in>set (split DELIM ?l @ [js ''tiberian'']). DELIM \<notin> set c"
    using t split_cells_no_delim [of _ DELIM ?l] by auto
  then have "joinCsvLine (split DELIM ?l @ [js ''tiberian'']) DELIM
      = join DELIM (split DELIM ?l @ [js ''tiberian''])"
    by (simp only: joinCsvLine_def map_quote_cell_id)
  also have "\<dots> = ?l @ DELIM # js ''tiberian''"
    by (simp add: join_snoc split_not_Nil join_split)
  also have "\<dots> = ?l @ js ''|tiberian''"
    by (simp add: js_def DELIM_def)
  finally show ?thesis
    by (simp add: header_row_def header_fields_def parseCsvLine_def)
qed

theorem rows_in_order_witness:
  "outfile (main sample_transliterate
     (sample_run [js ''id|vocalized|note'', js ''1|ab|x|y'', js ''  '', js ''2'', js ''3|cd'']))
   = [js ''id|vocalized|note|tiberian'' @ [NL], js ''1|ab|x|y|ba'' @ [NL],
      js ''2|||'' @ [NL], js ''3|cd||dc'' @ [NL]]"
proof -
  let ?h = "js ''id|vocalized|note''"
  let ?rest = "[js ''1|ab|x|y'', js ''  '', js ''2'', js ''3|cd'']"
  have i: "input (sample_run (?h # ?rest)) = Some (?h # ?rest)"
    by (simp add: sample_run_def)
  have v: "js ''vocalized'' \<in> set (header_fields ?h)"
    by code_simp
  have ok: "\<forall>r\<in>set ?rest. \<not> blank r \<longrightarrow> \<not> isl (row_result sample_transliterate (header_fields ?h) r)"
    by code_simp
  from rows_in_order [OF i v, of sample_transliterate] ok
  have "outfile (main sample_transliterate (sample_run (?h # ?rest)))
      = header_row (header_fields ?h)
        # map (output_row sample_transliterate (header_fields ?h)) (filter (\<lambda>r. \<not> blank r) ?rest)"
    by auto
  also have "\<dots> = [js ''id|vocalized|note|tiberian'' @ [NL], js ''1|ab|x|y|ba'' @ [NL],
      js ''2|||'' @ [NL], js ''3|cd||dc'' @ [NL]]"
    by code_simp
  finally show ?thesis .
qed

lemma plain_line:
  assumes "BOM \<notin> set h" and "h \<noteq> [] \<longrightarrow> last h \<noteq> CR"
  shows "strip_cr (strip_bom h) = h" and "header_fields h = split DELIM h"
proof -
  have b: "strip_bom h = h"
    using assms(1) by (auto simp: strip_bom_def filter_id_conv)
  show c: "strip_cr (strip_bom h) = h"
    unfolding b by (rule strip_cr_id [OF assms(2)])
  show "header_fields h = split DELIM h"
    unfolding header_fields_def parseCsvLine_def c ..
qed

text \<open>
  Claim C4. When no field of the header line is exactly \<^verbatim>\<open>vocalized\<close>, both scripts
  stop at the header: exit status 1, the one message on the error channel, and nothing
  written to the output, whatever the rows after the header are. The fields are those
  the script reads: the line without byte-order marks and without a trailing carriage
  return, split at the delimiter, compared as they are; for a line that has neither,
  they are the pieces of the line itself.
\<close>

theorem missing_column:
  assumes "input cfg = Some (h # rest)" and "js ''vocalized'' \<notin> set (header_fields h)"
  shows "main tr cfg =
       \<lparr>outfile = [], errors = [HeaderMissing], console = [], status = 1, uncaught = None\<rparr>
     \<and> main_ts tr cfg =
       \<lparr>outfile = [], errors = [HeaderMissing], console = [], status = 1, uncaught = None\<rparr>
     \<and> (BOM \<notin> set h \<and> (h \<noteq> [] \<longrightarrow> last h \<noteq> CR) \<longrightarrow> header_fields h = split DELIM h)"
  using main_without_header [OF assms] main_ts_without_header [OF assms] plain_line(2) [of h]
  by simp

theorem missing_column_witness:
  "main sample_transliterate (sample_run [js ''id|Vocalized| vocalized'', js ''1|ab|cd'']) =
       \<lparr>outfile = [], errors = [HeaderMissing], console = [], status = 1, uncaught = None\<rparr>
   \<and> main_ts sample_transliterate (sample_run [js ''id|Vocalized| vocalized'', js ''1|ab|cd'']) =
       \<lparr>outfile = [], errors = [HeaderMissing], console = [], status = 1, uncaught = None\<rparr>"
proof -
  let ?h = "js ''id|Vocalized| vocalized''"
  have i: "input (sample_run [?h, js ''1|ab|cd'']) = Some [?h, js ''1|ab|cd'']"
    by (simp add: sample_run_def)
  have v: "js ''vocalized'' \<notin> set (header_fields ?h)"
    by code_simp
  from missing_column [OF i v] show ?thesis by blast
qed

text \<open>
  Claim C6. When the header has a \<^verbatim>\<open>vocalized\<close> field, the first line either script
  writes is the text of the input header line (without byte-order marks and without a
  trailing carriage return; the line itself when it has neither) followed by
  \<^verbatim>\<open>|tiberian\<close> and a newline, whatever the rows, the flags, the operator's answers
  and the library do. It is the line the script forms from the header fields and the
  one new column name.
\<close>

theorem header_line:
  assumes "input cfg = Some (h # rest)" and "js ''vocalized'' \<in> set (header_fields h)"
  shows "(\<exists>rows. outfile (main tr cfg) = (strip_cr (strip_bom h) @ js ''|tiberian'' @ [NL]) # rows)
       \<and> (\<exists>rows. outfile (main_ts tr cfg) = (strip_cr (strip_bom h) @ js ''|tiberian'' @ [NL]) # rows)
       \<and> strip_cr (strip_bom h) @ js ''|tiberian'' @ [NL]
           = joinCsvLine (header_fields h @ [js ''tiberian'']) DELIM @ [NL]
       \<and> (BOM \<notin> set h \<and> (h \<noteq> [] \<longrightarrow> last h \<noteq> CR) \<longrightarrow> strip_cr (strip_bom h) = h)"
proof (intro conjI)
  from assms show "\<exists>rows. outfile (main tr cfg)
      = (strip_cr (strip_bom h) @ js ''|tiberian'' @ [NL]) # rows"
    by (cases rule: main_cases [where tr = tr]) (simp_all add: leave_def header_row_text)
  from assms show "\<exists>rows. outfile (main_ts tr cfg)
      = (strip_cr (strip_bom h) @ js ''|tiberian'' @ [NL]) # rows"
    by (cases rule: main_ts_cases [where tr = tr]) (simp_all add: leave_def header_row_text)
  show "strip_cr (strip_bom h) @ js ''|tiberian'' @ [NL]
      = joinCsvLine (header_fields h @ [js ''tiberian'']) DELIM @ [NL]"
    using header_row_text [of h] by (simp add: header_row_def)
  show "BOM \<notin> set h \<and> (h \<noteq> [] \<longrightarrow> last h \<noteq> CR) \<longrightarrow> strip_cr (strip_bom h) = h"
    using plain_line(1) [of h] by blast
qed

theorem header_line_witness:
  "hd (outfile (main sample_transliterate
         (sample_run [js ''book|chapter|verse|vocalized'', js ''Gen|1|1|x!'', js ''Gen|1|2|ab''])))
     = js ''book|chapter|verse|vocalized|tiberian'' @ [NL]
   \<and> hd (outfile (main_ts sample_transliterate
         (sample_run [js ''book|chapter|verse|vocalized'', js ''Gen|1|1|x!'', js ''Gen|1|2|ab''])))
     = js ''book|chapter|verse|vocalized|tiberian'' @ [NL]"
proof -
  let ?h = "js ''book|chapter|verse|vocalized''"
  let ?rest = "[js ''Gen|1|1|x!'', js ''Gen|1|2|ab'']"
  have i: "input (sample_run (?h # ?rest)) = Some (?h # ?rest)"
    by (simp add: sample_run_def)
  have v: "js ''vocalized'' \<in> set (header_fields ?h)"
    by code_simp
  have t: "strip_cr (strip_bom ?h) @ js ''|tiberian'' @ [NL]
      = js ''book|chapter|verse|vocalized|tiberian'' @ [NL]"
    by code_simp
  from header_line [OF i v, of sample_transliterate] show ?thesis
    unfolding t by auto
qed

section \<open>Rejected rows\<close>

lemma outfile_complete: "outfile (complete cfg f) = written (state_of f)"
  by (cases f) (simp_all add: complete_def finish_def leave_def)

lemma loop_written_extends:
  assumes "ready hc s"
  shows "\<exists>ys. written (state_of (for_await (body tr cfg) ls s)) = written s @ ys"
proof (cases "for_await (body tr cfg) ls s")
  case (Next s')
  from loop_Next [OF assms Next] show ?thesis by (simp add: Next)
next
  case (Break s')
  from loop_Break [OF assms Break] show ?thesis by (auto simp: Break)
next
  case (Stall s')
  from loop_Stall [OF assms Stall] show ?thesis by (auto simp: Stall)
next
  case (Exit s' code)
  with loop_no_Exit [OF assms] show ?thesis by blast
next
  case (Throw s' e)
  with loop_no_Throw show ?thesis by blast
qed

lemma row_step_input: "row_step tr (cfg\<lparr>input := x\<rparr>) s line = row_step tr cfg s line"
  by (simp add: row_step_def Let_def split: sum.splits)

lemma body_input: "body tr (cfg\<lparr>input := x\<rparr>) = body tr cfg"
  by (intro ext) (simp add: body_def row_step_input Let_def)

lemma main_prefix_runs:
  assumes "input cfg = Some (h # pre @ post)" and "js ''vocalized'' \<in> set (header_fields h)"
  shows "\<exists>ys. outfile (main tr cfg) = outfile (main tr (cfg\<lparr>input := Some (h # pre)\<rparr>)) @ ys"
proof -
  let ?cfg' = "cfg\<lparr>input := Some (h # pre)\<rparr>"
  let ?s0 = "(after_header cfg h)\<lparr>lineNumber := 1\<rparr>"
  have b: "body tr ?cfg' = body tr cfg"
    by (rule body_input)
  have a: "after_header ?cfg' h = after_header cfg h"
    by (simp add: after_header_def initial_def)
  have i': "input ?cfg' = Some (h # pre)" by simp
  have m: "main tr cfg = complete cfg (for_await (body tr cfg) (pre @ post) ?s0)"
    by (rule main_with_header [OF assms])
  have m': "main tr ?cfg' = complete ?cfg' (for_await (body tr cfg) pre ?s0)"
    using main_with_header [OF i' assms(2), of tr] by (simp only: a b)
  have r: "ready (header_fields h) ?s0" by (rule ready_after_header)
  show ?thesis
  proof (cases "for_await (body tr cfg) pre ?s0")
    case (Next s1)
    from loop_Next [OF r Next] have "ready (header_fields h) s1" by blast
    from loop_written_extends [OF this, of tr cfg post]
    obtain ys where "written (state_of (for_await (body tr cfg) post s1)) = written s1 @ ys"
      by blast
    moreover have "for_await (body tr cfg) (pre @ post) ?s0 = for_await (body tr cfg) post s1"
      unfolding for_await_append Next by simp
    ultimately show ?thesis
      unfolding m m' outfile_complete Next by simp
  next
    case (Break s1)
    have "for_await (body tr cfg) (pre @ post) ?s0 = Break s1"
      unfolding for_await_append Break by simp
    then show ?thesis
      unfolding m m' outfile_complete Break by simp
  next
    case (Stall s1)
    have "for_await (body tr cfg) (pre @ post) ?s0 = Stall s1"
      unfolding for_await_append Stall by simp
    then show ?thesis
      unfolding m m' outfile_complete Stall by simp
  next
    case (Exit s1 code)
    with loop_no_Exit [OF r] show ?thesis by blast
  next
    case (Throw s1 e)
    with loop_no_Throw show ?thesis by blast
  qed
qed

text \<open>
  Claim C2, as amended. In the script with an error policy (\<^verbatim>\<open>main\<close> of
  \<^verbatim>\<open>part_000\<close>), whatever the library rejects: the loop never lets an error escape
  and the handler of \<^verbatim>\<open>main().catch\<close> never prints; the exit status is 0 or 1, and 1
  only in interactive mode, after a non-blank row was rejected. The rejection is handled
  per the selected policy: skip mode asks nothing, ends with status 0 and the
  clean-completion line, and writes every non-blank row; interactive mode asks one
  question for every failure diagnostic. A rejected row is written with an empty last
  field and the loop goes on in skip mode and after an affirmative answer; after any
  other answer the loop is left with exit code 1 and nothing more written. A run that
  prints the clean-completion line has written every non-blank row. What a run on the
  first lines of the input writes is a prefix of what the run on the whole input writes.
\<close>

theorem rejected_rows:
  assumes "input cfg = Some (h # rest)" and "js ''vocalized'' \<in> set (header_fields h)"
  shows "(\<forall>s' e. for_await (body tr cfg) (h # rest) (initial cfg) \<noteq> Throw s' e)
       \<and> (\<forall>e. Unhandled e \<notin> set (errors (main tr cfg)))
       \<and> (status (main tr cfg) = 0 \<or> status (main tr cfg) = 1)
       \<and> (skipErrors cfg \<longrightarrow>
            status (main tr cfg) = 0 \<and> console (main tr cfg) = [Wrote (outputPath cfg)]
            \<and> outfile (main tr cfg) = header_row (header_fields h)
                # map (output_row tr (header_fields h)) (filter (\<lambda>r. \<not> blank r) rest))
       \<and> (\<not> skipErrors cfg \<longrightarrow>
            count_list (console (main tr cfg)) question
              = length (diagnostic_lines (errors (main tr cfg))))
       \<and> (status (main tr cfg) = 1 \<longrightarrow>
            \<not> skipErrors cfg
            \<and> (\<exists>row\<in>set rest. \<not> blank row \<and> isl (row_result tr (header_fields h) row)))
       \<and> (Wrote (outputPath cfg) \<in> set (console (main tr cfg)) \<longrightarrow>
            outfile (main tr cfg) = header_row (header_fields h)
              # map (output_row tr (header_fields h)) (filter (\<lambda>r. \<not> blank r) rest))
       \<and> (\<forall>r msg. row_result tr (header_fields h) r = Inl msg \<longrightarrow>
            output_row tr (header_fields h) r
              = joinCsvLine (row_cells (header_fields h) r @ [[]]) DELIM @ [NL])
       \<and> (\<forall>s r. ready (header_fields h) s \<and> \<not> blank r
              \<and> isl (row_result tr (header_fields h) r)
              \<and> (skipErrors cfg \<or> (stdin s \<noteq> [] \<and> promptToContinue (next_answer s))) \<longrightarrow>
            (\<exists>s'. body tr cfg s r = Next s'
               \<and> written s' = written s
                   @ [joinCsvLine (row_cells (header_fields h) r @ [[]]) DELIM @ [NL]]))
       \<and> (\<forall>s r. ready (header_fields h) s \<and> \<not> blank r
              \<and> isl (row_result tr (header_fields h) r)
              \<and> \<not> skipErrors cfg \<and> stdin s \<noteq> [] \<and> \<not> promptToContinue (next_answer s) \<longrightarrow>
            (\<exists>s'. body tr cfg s r = Break s' \<and> written s' = written s \<and> exitCode s' = 1))
       \<and> (\<forall>pre post. rest = pre @ post \<longrightarrow>
            (\<exists>ys. outfile (main tr cfg)
                    = outfile (main tr (cfg\<lparr>input := Some (h # pre)\<rparr>)) @ ys))"
proof -
  let ?hc = "header_fields h"
  let ?all = "header_row ?hc # map (output_row tr ?hc) (filter (\<lambda>r. \<not> blank r) rest)"
  note rs = run_state [where tr = tr and cfg = cfg and h = h and rest = rest]
  have c1: "\<forall>s' e. for_await (body tr cfg) (h # rest) (initial cfg) \<noteq> Throw s' e"
    using loop_no_Throw by blast
  from assms have c2: "(\<forall>e. Unhandled e \<notin> set (errors (main tr cfg)))
       \<and> (status (main tr cfg) = 0 \<or> status (main tr cfg) = 1)
       \<and> (skipErrors cfg \<longrightarrow>
            status (main tr cfg) = 0 \<and> console (main tr cfg) = [Wrote (outputPath cfg)]
            \<and> outfile (main tr cfg) = ?all)
       \<and> (\<not> skipErrors cfg \<longrightarrow>
            count_list (console (main tr cfg)) question
              = length (diagnostic_lines (errors (main tr cfg))))
       \<and> (status (main tr cfg) = 1 \<longrightarrow>
            \<not> skipErrors cfg
            \<and> (\<exists>row\<in>set rest. \<not> blank row \<and> isl (row_result tr ?hc row)))
       \<and> (Wrote (outputPath cfg) \<in> set (console (main tr cfg)) \<longrightarrow>
            outfile (main tr cfg) = ?all)"
  proof (cases rule: main_cases [where tr = tr])
    case (Completed s')
    from rs show ?thesis
      unfolding Completed(1,2) using Completed(3) by (simp add: leave_def question_def)
  next
    case (Aborted s' pre row post)
    from rs show ?thesis
      unfolding Aborted(1,2) using Aborted(3-7)
      by (auto simp: leave_def diagnostic_lines_append)
  next
    case (Unanswered s' pre row post)
    from rs show ?thesis
      unfolding Unanswered(1,2) using Unanswered(3-7)
      by (auto simp: leave_def)
  qed
  have c3: "\<forall>r msg. row_result tr ?hc r = Inl msg \<longrightarrow>
            output_row tr ?hc r = joinCsvLine (row_cells ?hc r @ [[]]) DELIM @ [NL]"
    by (simp add: output_row_failure)
  have c4: "\<forall>s r. ready ?hc s \<and> \<not> blank r \<and> isl (row_result tr ?hc r)
              \<and> (skipErrors cfg \<or> (stdin s \<noteq> [] \<and> promptToContinue (next_answer s))) \<longrightarrow>
            (\<exists>s'. body tr cfg s r = Next s'
               \<and> written s' = written s
                   @ [joinCsvLine (row_cells ?hc r @ [[]]) DELIM @ [NL]])"
  proof (intro allI impI)
    fix s r
    assume a: "ready ?hc s \<and> \<not> blank r \<and> isl (row_result tr ?hc r)
        \<and> (skipErrors cfg \<or> (stdin s \<noteq> [] \<and> promptToContinue (next_answer s)))"
    then obtain msg where m: "row_result tr ?hc r = Inl msg"
      by (cases "row_result tr ?hc r") auto
    from a have r: "ready ?hc s" and nb: "\<not> blank r" by blast+
    show "\<exists>s'. body tr cfg s r = Next s'
        \<and> written s' = written s @ [joinCsvLine (row_cells ?hc r @ [[]]) DELIM @ [NL]]"
    proof (cases "skipErrors cfg")
      case True
      from body_failure_skip [OF r nb m True] show ?thesis
        by (simp add: output_row_failure [OF m])
    next
      case False
      with a have "stdin s \<noteq> []" "promptToContinue (next_answer s)" by blast+
      from body_failure_accept [OF r nb m False this] show ?thesis
        by (simp add: output_row_failure [OF m])
    qed
  qed
  have c5: "\<forall>s r. ready ?hc s \<and> \<not> blank r \<and> isl (row_result tr ?hc r)
              \<and> \<not> skipErrors cfg \<and> stdin s \<noteq> [] \<and> \<not> promptToContinue (next_answer s) \<longrightarrow>
            (\<exists>s'. body tr cfg s r = Break s' \<and> written s' = written s \<and> exitCode s' = 1)"
  proof (intro allI impI)
    fix s r
    assume a: "ready ?hc s \<and> \<not> blank r \<and> isl (row_result tr ?hc r)
        \<and> \<not> skipErrors cfg \<and> stdin s \<noteq> [] \<and> \<not> promptToContinue (next_answer s)"
    then obtain msg where m: "row_result tr ?hc r = Inl msg"
      by (cases "row_result tr ?hc r") auto
    from a have "ready ?hc s" "\<not> blank r" "\<not> skipErrors cfg" "stdin s \<noteq> []"
        "\<not> promptToContinue (next_answer s)"
      by blast+
    from body_failure_decline [OF this(1,2) m this(3,4,5)]
    show "\<exists>s'. body tr cfg s r = Break s' \<and> written s' = written s \<and> exitCode s' = 1"
      by simp
  qed
  have c6: "\<forall>pre post. rest = pre @ post \<longrightarrow>
            (\<exists>ys. outfile (main tr cfg)
                    = outfile (main tr (cfg\<lparr>input := Some (h # pre)\<rparr>)) @ ys)"
    using main_prefix_runs [OF _ assms(2), of cfg _ _ tr] assms(1) by auto
  from c1 c2 c3 c4 c5 c6 show ?thesis by (intro conjI) blast+
qed

theorem rejected_rows_witness:
  "status (main sample_transliterate
      ((sample_run [js ''id|vocalized'', js ''1|ab'', js ''2|x!'', js ''3|cd''])\<lparr>skipErrors := True\<rparr>))
     = 0
   \<and> console (main sample_transliterate
      ((sample_run [js ''id|vocalized'', js ''1|ab'', js ''2|x!'', js ''3|cd''])\<lparr>skipErrors := True\<rparr>))
     = [Wrote (js ''out.csv'')]
   \<and> outfile (main sample_transliterate
      ((sample_run [js ''id|vocalized'', js ''1|ab'', js ''2|x!'', js ''3|cd''])\<lparr>skipErrors := True\<rparr>))
     = [js ''id|vocalized|tiberian'' @ [NL], js ''1|ab|ba'' @ [NL], js ''2|x!|'' @ [NL],
        js ''3|cd|dc'' @ [NL]]"
proof -
  let ?h = "js ''id|vocalized''"
  let ?rest = "[js ''1|ab'', js ''2|x!'', js ''3|cd'']"
  let ?cfg = "(sample_run (?h # ?rest))\<lparr>skipErrors := True\<rparr>"
  have i: "input ?cfg = Some (?h # ?rest)"
    by (simp add: sample_run_def)
  have v: "js ''vocalized'' \<in> set (header_fields ?h)"
    by code_simp
  have sk: "skipErrors ?cfg" by simp
  have o: "outputPath ?cfg = js ''out.csv''" by (simp add: sample_run_def)
  have e: "header_row (header_fields ?h)
        # map (output_row sample_transliterate (header_fields ?h)) (filter (\<lambda>r. \<not> blank r) ?rest)
      = [js ''id|vocalized|tiberian'' @ [NL], js ''1|ab|ba'' @ [NL], js ''2|x!|'' @ [NL],
         js ''3|cd|dc'' @ [NL]]"
    by code_simp
  from rejected_rows [OF i v, of sample_transliterate] sk show ?thesis
    unfolding e o by blast
qed

text \<open>
  Claim C2 as stated fails in \<^verbatim>\<open>scripts/transliterate_csv.ts\<close>, which has no error
  policy: the error thrown for the second row escapes \<^verbatim>\<open>main\<close>, and neither that row
  nor the row after it is written.
\<close>

theorem rejected_rows_counterexample:
  "uncaught (main_ts sample_transliterate
      (sample_run [js ''id|vocalized'', js ''1|ab'', js ''2|x!'', js ''3|cd'']))
     = Some (js ''bad'')
   \<and> outfile (main_ts sample_transliterate
      (sample_run [js ''id|vocalized'', js ''1|ab'', js ''2|x!'', js ''3|cd'']))
     = [js ''id|vocalized|tiberian'' @ [NL], js ''1|ab|ba'' @ [NL]]"
  by code_simp

section \<open>The operator's decision\<close>

lemma body_initial:
  assumes "js ''vocalized'' \<in> set (header_fields h)"
  shows "body tr cfg (initial cfg) h = Next ((after_header cfg h)\<lparr>lineNumber := 1\<rparr>)"
proof -
  have "\<not> headerProcessed (initial cfg)" by (simp add: initial_def)
  from body_header_ok [OF this assms] show ?thesis
    by (simp add: after_header_def initial_def)
qed

lemma reach_row:
  assumes "for_await (body tr cfg) (h # pre) (initial cfg) = Next s"
  shows "js ''vocalized'' \<in> set (header_fields h) \<and> ready (header_fields h) s
    \<and> lineNumber s = Suc (length pre) \<and> exitCode s = 0
    \<and> written s = header_row (header_fields h)
        # map (output_row tr (header_fields h)) (filter (\<lambda>r. \<not> blank r) pre)"
proof (cases "js ''vocalized'' \<in> set (header_fields h)")
  case True
  let ?s0 = "(after_header cfg h)\<lparr>lineNumber := 1\<rparr>"
  have l: "for_await (body tr cfg) pre ?s0 = Next s"
    using assms unfolding for_await.simps body_initial [OF True] by simp
  have r: "ready (header_fields h) ?s0" by (rule ready_after_header)
  have w0: "written ?s0 = [header_row (header_fields h)]" "exitCode ?s0 = 0"
      "lineNumber ?s0 = 1"
    by (simp_all add: after_header_def initial_def)
  from loop_Next [OF r l] w0 True show ?thesis by simp
next
  case False
  have "\<not> headerProcessed (initial cfg)" by (simp add: initial_def)
  from body_header_missing [OF this False, of tr cfg] assms show ?thesis by simp
qed

lemma main_from_row:
  assumes "input cfg = Some (h # pre @ rows)"
    and "for_await (body tr cfg) (h # pre) (initial cfg) = Next s"
  shows "main tr cfg = complete cfg (for_await (body tr cfg) rows s)"
proof -
  have "for_await (body tr cfg) ((h # pre) @ rows) (initial cfg) = for_await (body tr cfg) rows s"
    unfolding for_await_append assms(2) by simp
  then show ?thesis using assms(1) by (simp add: main_def)
qed

text \<open>
  A rejected row in interactive mode, reached in state \<open>s\<close>, when the operator answers the
  question. If the answer is not \<^verbatim>\<open>y\<close> or \<^verbatim>\<open>yes\<close> after trimming and lower-casing,
  the run ends with exit status 1, the output is exactly what had been written when the
  row was reached, and the completion-with-errors line closes the error channel. If the
  answer is affirmative, the run goes on with the rows after this one from a state in
  which the row has been written with an empty last field.
\<close>

lemma answered_question:
  assumes "input cfg = Some (h # pre @ row # post)"
    and "for_await (body tr cfg) (h # pre) (initial cfg) = Next s"
    and "\<not> skipErrors cfg" and "\<not> blank row"
    and "row_result tr (header_fields h) row = Inl msg"
    and "stdin s = a # later"
  shows "(\<not> promptToContinue (Some a) \<longrightarrow>
            status (main tr cfg) = 1 \<and> outfile (main tr cfg) = written s
            \<and> written s = header_row (header_fields h)
                # map (output_row tr (header_fields h)) (filter (\<lambda>r. \<not> blank r) pre)
            \<and> errors (main tr cfg)
                = stderr s @ row_report tr (debug cfg) (header_fields h) (lineNumber s + 1) row
                  @ [CompletedWithErrors]
            \<and> console (main tr cfg) = stdout s @ [question])
       \<and> (promptToContinue (Some a) \<longrightarrow>
            main tr cfg = complete cfg (for_await (body tr cfg) post
              (s\<lparr>lineNumber := lineNumber s + 1,
                 stderr := stderr s
                   @ row_report tr (debug cfg) (header_fields h) (lineNumber s + 1) row,
                 stdout := stdout s @ [question],
                 stdin := later,
                 written := written s
                   @ [joinCsvLine (row_cells (header_fields h) row @ [[]]) DELIM @ [NL]]\<rparr>)))
       \<and> promptToContinue (Some a)
           = (toLowerCase (trim a) = js ''y'' \<or> toLowerCase (trim a) = js ''yes'')"
proof (intro conjI impI)
  note rr = reach_row [OF assms(2)]
  from rr have r: "ready (header_fields h) s" by blast
  note m = main_from_row [OF assms(1,2)]
  have ne: "stdin s \<noteq> []" and na: "next_answer s = Some a" and tl: "tl (stdin s) = later"
    using assms(6) by (simp_all add: next_answer_def)
  {
    assume "\<not> promptToContinue (Some a)"
    then have d: "\<not> promptToContinue (next_answer s)" by (simp add: na)
    note b = body_failure_decline [OF r assms(4,5,3) ne d]
    let ?s' = "s\<lparr>lineNumber := lineNumber s + 1,
             stderr := stderr s @ row_report tr (debug cfg) (header_fields h) (lineNumber s + 1) row,
             stdout := stdout s @ [question],
             stdin := tl (stdin s),
             exitCode := 1\<rparr>"
    have "for_await (body tr cfg) (row # post) s = Break ?s'"
      unfolding for_await.simps b by simp
    then have mm: "main tr cfg = finish cfg ?s'"
      unfolding m by (simp add: complete_def)
    show "status (main tr cfg) = 1" unfolding mm by (simp add: finish_def leave_def)
    show "outfile (main tr cfg) = written s" unfolding mm by (simp add: finish_def leave_def)
    show "errors (main tr cfg)
        = stderr s @ row_report tr (debug cfg) (header_fields h) (lineNumber s + 1) row
          @ [CompletedWithErrors]"
      unfolding mm by (simp add: finish_def leave_def)
    show "console (main tr cfg) = stdout s @ [question]"
      unfolding mm by (simp add: finish_def leave_def)
    show "written s = header_row (header_fields h)
        # map (output_row tr (header_fields h)) (filter (\<lambda>r. \<not> blank r) pre)"
      using rr by blast
  }
  {
    assume "promptToContinue (Some a)"
    then have a: "promptToContinue (next_answer s)" by (simp add: na)
    note b = body_failure_accept [OF r assms(4,5,3) ne a]
    show "main tr cfg = complete cfg (for_await (body tr cfg) post
              (s\<lparr>lineNumber := lineNumber s + 1,
                 stderr := stderr s
                   @ row_report tr (debug cfg) (header_fields h) (lineNumber s + 1) row,
                 stdout := stdout s @ [question],
                 stdin := later,
                 written := written s
                   @ [joinCsvLine (row_cells (header_fields h) row @ [[]]) DELIM @ [NL]]\<rparr>))"
      unfolding m for_await.simps b output_row_failure [OF assms(5)] tl by simp
  }
  show "promptToContinue (Some a)
      = (toLowerCase (trim a) = js ''y'' \<or> toLowerCase (trim a) = js ''yes'')"
    by (simp add: promptToContinue_def Let_def)
qed

text \<open>
  The same row when the operator's input has ended: the question is put, nothing
  answers it, and the process ends there with status 0: the row and the rows after it
  are not written, and neither final line is printed.
\<close>

lemma unanswered_question:
  assumes "input cfg = Some (h # pre @ row # post)"
    and "for_await (body tr cfg) (h # pre) (initial cfg) = Next s"
    and "\<not> skipErrors cfg" and "\<not> blank row"
    and "row_result tr (header_fields h) row = Inl msg"
    and "stdin s = []"
  shows "main tr cfg =
     \<lparr>outfile = written s,
      errors = stderr s @ row_report tr (debug cfg) (header_fields h) (lineNumber s + 1) row,
      console = stdout s @ [question], status = 0, uncaught = None\<rparr>"
proof -
  note rr = reach_row [OF assms(2)]
  from rr have r: "ready (header_fields h) s" and e: "exitCode s = 0" by blast+
  note m = main_from_row [OF assms(1,2)]
  note b = body_failure_unanswered [OF r assms(4,5,3,6)]
  let ?s' = "s\<lparr>lineNumber := lineNumber s + 1,
             stderr := stderr s @ row_report tr (debug cfg) (header_fields h) (lineNumber s + 1) row,
             stdout := stdout s @ [question]\<rparr>"
  have "for_await (body tr cfg) (row # post) s = Stall ?s'"
    unfolding for_await.simps b by simp
  then have "main tr cfg = leave ?s' (exitCode ?s')"
    unfolding m by (simp add: complete_def)
  then show ?thesis using e by (simp add: leave_def)
qed

text \<open>
  Claim C5 at the end of the operator's input. The claim counts the end of the input
  as a non-affirmative answer: exit status 1 and no further rows. The script does stop
  writing, but not with status 1. With the header, a good row, a rejected row and one
  more row, in interactive mode and with no operator input, it writes the header line
  and the first row, logs the diagnostic for line 3, puts the question, and ends with
  status 0 and without the completion-with-errors line.
\<close>

theorem operator_end_of_input:
  "outfile (main sample_transliterate
      (sample_run [js ''id|vocalized'', js ''1|ab'', js ''2|x!'', js ''3|cd'']))
     = [js ''id|vocalized|tiberian'' @ [NL], js ''1|ab|ba'' @ [NL]]
   \<and> errors (main sample_transliterate
      (sample_run [js ''id|vocalized'', js ''1|ab'', js ''2|x!'', js ''3|cd'']))
     = [ErrorAt 3 (Some (js ''2|x!'')) (js ''bad'')]
   \<and> console (main sample_transliterate
      (sample_run [js ''id|vocalized'', js ''1|ab'', js ''2|x!'', js ''3|cd'']))
     = [question]
   \<and> status (main sample_transliterate
      (sample_run [js ''id|vocalized'', js ''1|ab'', js ''2|x!'', js ''3|cd''])) = 0"
  by code_simp

section \<open>The final status line\<close>

text \<open>
  Claim C9, as amended. For a run that gets past the header the two final lines exclude
  each other. The clean-completion message naming the output path is printed, last on
  standard output and with exit status 0, by every run whose loop reaches the end of
  the input, whether or not rows were rejected on the way: always in skip mode, and
  always when no row is rejected. The completion-with-errors message is printed, last
  on the error channel and with exit status 1, by every run whose loop is left by
  \<^verbatim>\<open>break\<close>, which is the case when the operator gives a non-affirmative answer
  after a rejected row in interactive mode, and only in interactive mode after a
  rejected row.
\<close>

theorem final_status_line:
  assumes "input cfg = Some (h # rest)" and "js ''vocalized'' \<in> set (header_fields h)"
  shows "(Wrote (outputPath cfg) \<in> set (console (main tr cfg)) \<longrightarrow>
            status (main tr cfg) = 0
            \<and> last (console (main tr cfg)) = Wrote (outputPath cfg)
            \<and> CompletedWithErrors \<notin> set (errors (main tr cfg)))
       \<and> (CompletedWithErrors \<in> set (errors (main tr cfg)) \<longrightarrow>
            status (main tr cfg) = 1
            \<and> last (errors (main tr cfg)) = CompletedWithErrors
            \<and> (\<forall>p. Wrote p \<notin> set (console (main tr cfg)))
            \<and> \<not> skipErrors cfg
            \<and> (\<exists>row\<in>set rest. \<not> blank row \<and> isl (row_result tr (header_fields h) row)))
       \<and> (\<forall>s'. for_await (body tr cfg) (h # rest) (initial cfg) = Next s' \<longrightarrow>
            Wrote (outputPath cfg) \<in> set (console (main tr cfg)))
       \<and> (\<forall>s'. for_await (body tr cfg) (h # rest) (initial cfg) = Break s' \<longrightarrow>
            CompletedWithErrors \<in> set (errors (main tr cfg)))
       \<and> (skipErrors cfg \<longrightarrow> Wrote (outputPath cfg) \<in> set (console (main tr cfg)))
       \<and> ((\<forall>row\<in>set rest. \<not> blank row \<longrightarrow> \<not> isl (row_result tr (header_fields h) row))
            \<longrightarrow> Wrote (outputPath cfg) \<in> set (console (main tr cfg)))
       \<and> (\<forall>pre row post s a later.
            rest = pre @ row # post
            \<and> for_await (body tr cfg) (h # pre) (initial cfg) = Next s
            \<and> \<not> skipErrors cfg \<and> \<not> blank row
            \<and> isl (row_result tr (header_fields h) row)
            \<and> stdin s = a # later \<and> \<not> promptToContinue (Some a)
            \<longrightarrow> CompletedWithErrors \<in> set (errors (main tr cfg)))"
proof -
  let ?hc = "header_fields h"
  let ?s0 = "(after_header cfg h)\<lparr>lineNumber := 1\<rparr>"
  note rs = run_state [where tr = tr and cfg = cfg and h = h and rest = rest]
  have f0: "for_await (body tr cfg) (h # rest) (initial cfg) = for_await (body tr cfg) rest ?s0"
    unfolding for_await.simps body_initial [OF assms(2)] by simp
  from assms have c1: "(Wrote (outputPath cfg) \<in> set (console (main tr cfg)) \<longrightarrow>
            status (main tr cfg) = 0
            \<and> last (console (main tr cfg)) = Wrote (outputPath cfg)
            \<and> CompletedWithErrors \<notin> set (errors (main tr cfg)))
       \<and> (CompletedWithErrors \<in> set (errors (main tr cfg)) \<longrightarrow>
            status (main tr cfg) = 1
            \<and> last (errors (main tr cfg)) = CompletedWithErrors
            \<and> (\<forall>p. Wrote p \<notin> set (console (main tr cfg)))
            \<and> \<not> skipErrors cfg
            \<and> (\<exists>row\<in>set rest. \<not> blank row \<and> isl (row_result tr ?hc row)))
       \<and> (\<forall>s'. for_await (body tr cfg) (h # rest) (initial cfg) = Next s' \<longrightarrow>
            Wrote (outputPath cfg) \<in> set (console (main tr cfg)))
       \<and> (\<forall>s'. for_await (body tr cfg) (h # rest) (initial cfg) = Break s' \<longrightarrow>
            CompletedWithErrors \<in> set (errors (main tr cfg)))
       \<and> (skipErrors cfg \<longrightarrow> Wrote (outputPath cfg) \<in> set (console (main tr cfg)))
       \<and> ((\<forall>row\<in>set rest. \<not> blank row \<longrightarrow> \<not> isl (row_result tr ?hc row))
            \<longrightarrow> Wrote (outputPath cfg) \<in> set (console (main tr cfg)))"
  proof (cases rule: main_cases [where tr = tr])
    case (Completed s')
    from rs show ?thesis
      unfolding f0 Completed(1,2) by (simp add: leave_def)
  next
    case (Aborted s' pre row post)
    from rs show ?thesis
      unfolding f0 Aborted(1,2) using Aborted(3-7) by (auto simp: leave_def)
  next
    case (Unanswered s' pre row post)
    from rs show ?thesis
      unfolding f0 Unanswered(1,2) using Unanswered(3-7) by (auto simp: leave_def)
  qed
  have c2: "\<forall>pre row post s a later.
            rest = pre @ row # post
            \<and> for_await (body tr cfg) (h # pre) (initial cfg) = Next s
            \<and> \<not> skipErrors cfg \<and> \<not> blank row
            \<and> isl (row_result tr ?hc row)
            \<and> stdin s = a # later \<and> \<not> promptToContinue (Some a)
            \<longrightarrow> CompletedWithErrors \<in> set (errors (main tr cfg))"
  proof (intro allI impI)
    fix pre row post s a later
    assume a: "rest = pre @ row # post
            \<and> for_await (body tr cfg) (h # pre) (initial cfg) = Next s
            \<and> \<not> skipErrors cfg \<and> \<not> blank row
            \<and> isl (row_result tr ?hc row)
            \<and> stdin s = a # later \<and> \<not> promptToContinue (Some a)"
    then obtain msg where m: "row_result tr ?hc row = Inl msg"
      by (cases "row_result tr ?hc row") auto
    from a assms(1) have i: "input cfg = Some (h # pre @ row # post)" by simp
    from a have f: "for_await (body tr cfg) (h # pre) (initial cfg) = Next s"
      and k: "\<not> skipErrors cfg" and nb: "\<not> blank row" and st: "stdin s = a # later"
      and d: "\<not> promptToContinue (Some a)"
      by blast+
    from answered_question [OF i f k nb m st] d
    show "CompletedWithErrors \<in> set (errors (main tr cfg))" by simp
  qed
  from c1 c2 show ?thesis by blast
qed

theorem final_status_line_witness:
  "status (main sample_transliterate
      ((sample_run [js ''id|vocalized'', js ''1|x!''])\<lparr>answers := [js ''n'']\<rparr>)) = 1
   \<and> last (errors (main sample_transliterate
      ((sample_run [js ''id|vocalized'', js ''1|x!''])\<lparr>answers := [js ''n'']\<rparr>)))
      = CompletedWithErrors
   \<and> Wrote (js ''out.csv'') \<notin> set (console (main sample_transliterate
      ((sample_run [js ''id|vocalized'', js ''1|x!''])\<lparr>answers := [js ''n'']\<rparr>)))"
proof -
  let ?h = "js ''id|vocalized''"
  let ?cfg = "(sample_run [?h, js ''1|x!''])\<lparr>answers := [js ''n'']\<rparr>"
  have i: "input ?cfg = Some [?h, js ''1|x!'']" by (simp add: sample_run_def)
  have v: "js ''vocalized'' \<in> set (header_fields ?h)" by code_simp
  have c: "CompletedWithErrors \<in> set (errors (main sample_transliterate ?cfg))" by code_simp
  from final_status_line [OF i v, of sample_transliterate] c show ?thesis by blast
qed

text \<open>
  Claim C9 as stated fails: in skip mode a run in which a row was rejected (the error
  channel holds its diagnostic) still ends with the clean-completion message, exit
  status 0 and no completion-with-errors message.
\<close>

theorem final_status_line_counterexample:
  "errors (main sample_transliterate
      ((sample_run [js ''id|vocalized'', js ''1|x!''])\<lparr>skipErrors := True\<rparr>))
     = [ErrorAt 2 (Some (js ''1|x!'')) (js ''bad'')]
   \<and> console (main sample_transliterate
      ((sample_run [js ''id|vocalized'', js ''1|x!''])\<lparr>skipErrors := True\<rparr>))
     = [Wrote (js ''out.csv'')]
   \<and> status (main sample_transliterate
      ((sample_run [js ''id|vocalized'', js ''1|x!''])\<lparr>skipErrors := True\<rparr>)) = 0"
  by code_simp

section \<open>Blank lines and line numbers\<close>

lemma rejected_lines_Cons:
  "rejected_lines tr hc n (r # rows) =
     (if \<not> blank r \<and> isl (row_result tr hc r) then n # rejected_lines tr hc (Suc n) rows
      else rejected_lines tr hc (Suc n) rows)"
  by (simp add: rejected_lines_def)

lemma loop_diagnostic_lines:
  assumes "ready hc s"
  shows "\<exists>k \<le> length (rejected_lines tr hc (lineNumber s + 1) ls).
      diagnostic_lines (stderr (state_of (for_await (body tr cfg) ls s)))
        = diagnostic_lines (stderr s) @ take k (rejected_lines tr hc (lineNumber s + 1) ls)
      \<and> ((\<exists>s'. for_await (body tr cfg) ls s = Next s')
            \<longrightarrow> k = length (rejected_lines tr hc (lineNumber s + 1) ls))"
  using assms
proof (induction ls arbitrary: s)
  case Nil
  then show ?case by (simp add: rejected_lines_def)
next
  case (Cons r ls)
  let ?n = "lineNumber s + 1"
  from Cons.prems show ?case
  proof (cases rule: body_cases [where r = r and tr = tr and cfg = cfg])
    case Blank
    let ?s1 = "s\<lparr>lineNumber := lineNumber s + 1\<rparr>"
    have r1: "ready hc ?s1" using Cons.prems by (simp add: ready_def)
    from Cons.IH [OF r1] obtain k where k: "k \<le> length (rejected_lines tr hc (Suc ?n) ls)"
      "diagnostic_lines (stderr (state_of (for_await (body tr cfg) ls ?s1)))
        = diagnostic_lines (stderr s) @ take k (rejected_lines tr hc (Suc ?n) ls)"
      "(\<exists>s'. for_await (body tr cfg) ls ?s1 = Next s')
            \<longrightarrow> k = length (rejected_lines tr hc (Suc ?n) ls)"
      by auto
    have e: "rejected_lines tr hc ?n (r # ls) = rejected_lines tr hc (Suc ?n) ls"
      using Blank(1) by (simp add: rejected_lines_Cons)
    have f: "for_await (body tr cfg) (r # ls) s = for_await (body tr cfg) ls ?s1"
      unfolding for_await.simps Blank(2) by simp
    show ?thesis unfolding e f using k by blast
  next
    case (Success tib)
    let ?s1 = "s\<lparr>lineNumber := lineNumber s + 1, written := written s @ [output_row tr hc r]\<rparr>"
    have r1: "ready hc ?s1" using Cons.prems by (simp add: ready_def)
    from Cons.IH [OF r1] obtain k where k: "k \<le> length (rejected_lines tr hc (Suc ?n) ls)"
      "diagnostic_lines (stderr (state_of (for_await (body tr cfg) ls ?s1)))
        = diagnostic_lines (stderr s) @ take k (rejected_lines tr hc (Suc ?n) ls)"
      "(\<exists>s'. for_await (body tr cfg) ls ?s1 = Next s')
            \<longrightarrow> k = length (rejected_lines tr hc (Suc ?n) ls)"
      by auto
    have e: "rejected_lines tr hc ?n (r # ls) = rejected_lines tr hc (Suc ?n) ls"
      using Success(2) by (simp add: rejected_lines_Cons)
    have f: "for_await (body tr cfg) (r # ls) s = for_await (body tr cfg) ls ?s1"
      unfolding for_await.simps Success(3) by simp
    show ?thesis unfolding e f using k by blast
  next
    case (Skip msg)
    let ?s1 = "s\<lparr>lineNumber := lineNumber s + 1,
             stderr := stderr s @ row_report tr (debug cfg) hc (lineNumber s + 1) r,
             written := written s @ [output_row tr hc r]\<rparr>"
    have r1: "ready hc ?s1" using Cons.prems by (simp add: ready_def)
    have d1: "diagnostic_lines (stderr ?s1) = diagnostic_lines (stderr s) @ [?n]"
      by (simp add: diagnostic_lines_append diagnostic_lines_row_report [OF Skip(2)])
    from Cons.IH [OF r1] obtain k where k: "k \<le> length (rejected_lines tr hc (Suc ?n) ls)"
      "diagnostic_lines (stderr (state_of (for_await (body tr cfg) ls ?s1)))
        = diagnostic_lines (stderr ?s1) @ take k (rejected_lines tr hc (Suc ?n) ls)"
      "(\<exists>s'. for_await (body tr cfg) ls ?s1 = Next s')
            \<longrightarrow> k = length (rejected_lines tr hc (Suc ?n) ls)"
      by auto
    have e: "rejected_lines tr hc ?n (r # ls) = ?n # rejected_lines tr hc (Suc ?n) ls"
      using Skip(1,2) by (simp add: rejected_lines_Cons)
    have f: "for_await (body tr cfg) (r # ls) s = for_await (body tr cfg) ls ?s1"
      unfolding for_await.simps Skip(4) by simp
    have "Suc k \<le> length (?n # rejected_lines tr hc (Suc ?n) ls)" using k(1) by simp
    moreover have "diagnostic_lines (stderr (state_of (for_await (body tr cfg) ls ?s1)))
        = diagnostic_lines (stderr s) @ take (Suc k) (?n # rejected_lines tr hc (Suc ?n) ls)"
      unfolding k(2) d1 by simp
    moreover have "(\<exists>s'. for_await (body tr cfg) ls ?s1 = Next s')
            \<longrightarrow> Suc k = length (?n # rejected_lines tr hc (Suc ?n) ls)"
      using k(3) by simp
    ultimately show ?thesis unfolding e f by blast
  next
    case (Accept msg)
    let ?s1 = "s\<lparr>lineNumber := lineNumber s + 1,
             stderr := stderr s @ row_report tr (debug cfg) hc (lineNumber s + 1) r,
             stdout := stdout s @ [question],
             stdin := tl (stdin s),
             written := written s @ [output_row tr hc r]\<rparr>"
    have r1: "ready hc ?s1" using Cons.prems by (simp add: ready_def)
    have d1: "diagnostic_lines (stderr ?s1) = diagnostic_lines (stderr s) @ [?n]"
      by (simp add: diagnostic_lines_append diagnostic_lines_row_report [OF Accept(2)])
    from Cons.IH [OF r1] obtain k where k: "k \<le> length (rejected_lines tr hc (Suc ?n) ls)"
      "diagnostic_lines (stderr (state_of (for_await (body tr cfg) ls ?s1)))
        = diagnostic_lines (stderr ?s1) @ take k (rejected_lines tr hc (Suc ?n) ls)"
      "(\<exists>s'. for_await (body tr cfg) ls ?s1 = Next s')
            \<longrightarrow> k = length (rejected_lines tr hc (Suc ?n) ls)"
      by auto
    have e: "rejected_lines tr hc ?n (r # ls) = ?n # rejected_lines tr hc (Suc ?n) ls"
      using Accept(1,2) by (simp add: rejected_lines_Cons)
    have f: "for_await (body tr cfg) (r # ls) s = for_await (body tr cfg) ls ?s1"
      unfolding for_await.simps Accept(6) by simp
    have "Suc k \<le> length (?n # rejected_lines tr hc (Suc ?n) ls)" using k(1) by simp
    moreover have "diagnostic_lines (stderr (state_of (for_await (body tr cfg) ls ?s1)))
        = diagnostic_lines (stderr s) @ take (Suc k) (?n # rejected_lines tr hc (Suc ?n) ls)"
      unfolding k(2) d1 by simp
    moreover have "(\<exists>s'. for_await (body tr cfg) ls ?s1 = Next s')
            \<longrightarrow> Suc k = length (?n # rejected_lines tr hc (Suc ?n) ls)"
      using k(3) by simp
    ultimately show ?thesis unfolding e f by blast
  next
    case (Decline msg)
    let ?s1 = "s\<lparr>lineNumber := lineNumber s + 1,
             stderr := stderr s @ row_report tr (debug cfg) hc (lineNumber s + 1) r,
             stdout := stdout s @ [question],
             stdin := tl (stdin s),
             exitCode := 1\<rparr>"
    have d1: "diagnostic_lines (stderr ?s1) = diagnostic_lines (stderr s) @ [?n]"
      by (simp add: diagnostic_lines_append diagnostic_lines_row_report [OF Decline(2)])
    have e: "rejected_lines tr hc ?n (r # ls) = ?n # rejected_lines tr hc (Suc ?n) ls"
      using Decline(1,2) by (simp add: rejected_lines_Cons)
    have f: "for_await (body tr cfg) (r # ls) s = Break ?s1"
      unfolding for_await.simps Decline(6) by simp
    have "Suc 0 \<le> length (?n # rejected_lines tr hc (Suc ?n) ls)" by simp
    moreover have "diagnostic_lines (stderr (state_of (Break ?s1)))
        = diagnostic_lines (stderr s) @ take (Suc 0) (?n # rejected_lines tr hc (Suc ?n) ls)"
      using d1 by simp
    moreover have "(\<exists>s'. Break ?s1 = Next s')
            \<longrightarrow> Suc 0 = length (?n # rejected_lines tr hc (Suc ?n) ls)"
      by simp
    ultimately show ?thesis unfolding e f by blast
  next
    case (Unanswered msg)
    let ?s1 = "s\<lparr>lineNumber := lineNumber s + 1,
             stderr := stderr s @ row_report tr (debug cfg) hc (lineNumber s + 1) r,
             stdout := stdout s @ [question]\<rparr>"
    have d1: "diagnostic_lines (stderr ?s1) = diagnostic_lines (stderr s) @ [?n]"
      by (simp add: diagnostic_lines_append diagnostic_lines_row_report [OF Unanswered(2)])
    have e: "rejected_lines tr hc ?n (r # ls) = ?n # rejected_lines tr hc (Suc ?n) ls"
      using Unanswered(1,2) by (simp add: rejected_lines_Cons)
    have f: "for_await (body tr cfg) (r # ls) s = Stall ?s1"
      unfolding for_await.simps Unanswered(5) by simp
    have "Suc 0 \<le> length (?n # rejected_lines tr hc (Suc ?n) ls)" by simp
    moreover have "diagnostic_lines (stderr (state_of (Stall ?s1)))
        = diagnostic_lines (stderr s) @ take (Suc 0) (?n # rejected_lines tr hc (Suc ?n) ls)"
      using d1 by simp
    moreover have "(\<exists>s'. Stall ?s1 = Next s')
            \<longrightarrow> Suc 0 = length (?n # rejected_lines tr hc (Suc ?n) ls)"
      by simp
    ultimately show ?thesis unfolding e f by blast
  qed
qed

lemma main_rows:
  assumes "input cfg = Some (h # rest)" and "js ''vocalized'' \<in> set (header_fields h)"
  shows "\<exists>k \<le> length (filter (\<lambda>r. \<not> blank r) rest).
      outfile (main tr cfg) = header_row (header_fields h)
        # map (output_row tr (header_fields h)) (take k (filter (\<lambda>r. \<not> blank r) rest))"
  using assms
proof (cases rule: main_cases [where tr = tr])
  case (Completed s')
  then have "outfile (main tr cfg) = header_row (header_fields h)
      # map (output_row tr (header_fields h))
          (take (length (filter (\<lambda>r. \<not> blank r) rest)) (filter (\<lambda>r. \<not> blank r) rest))"
    by (simp add: leave_def)
  then show ?thesis by blast
next
  case (Aborted s' pre row post)
  have "outfile (main tr cfg) = header_row (header_fields h)
      # map (output_row tr (header_fields h))
          (take (length (filter (\<lambda>r. \<not> blank r) pre)) (filter (\<lambda>r. \<not> blank r) rest))"
    using Aborted(2,4) unfolding Aborted(3) take_filter_prefix by (simp add: leave_def)
  moreover have "length (filter (\<lambda>r. \<not> blank r) pre) \<le> length (filter (\<lambda>r. \<not> blank r) rest)"
    unfolding Aborted(3) by simp
  ultimately show ?thesis by blast
next
  case (Unanswered s' pre row post)
  have "outfile (main tr cfg) = header_row (header_fields h)
      # map (output_row tr (header_fields h))
          (take (length (filter (\<lambda>r. \<not> blank r) pre)) (filter (\<lambda>r. \<not> blank r) rest))"
    using Unanswered(2,4) unfolding Unanswered(3) take_filter_prefix by (simp add: leave_def)
  moreover have "length (filter (\<lambda>r. \<not> blank r) pre) \<le> length (filter (\<lambda>r. \<not> blank r) rest)"
    unfolding Unanswered(3) by simp
  ultimately show ?thesis by blast
qed

lemma main_ts_rows:
  assumes "input cfg = Some (h # rest)" and "js ''vocalized'' \<in> set (header_fields h)"
  shows "\<exists>k \<le> length (filter (\<lambda>r. \<not> blank r) rest).
      outfile (main_ts tr cfg) = header_row (header_fields h)
        # map (output_row tr (header_fields h)) (take k (filter (\<lambda>r. \<not> blank r) rest))"
  using assms
proof (cases rule: main_ts_cases [where tr = tr])
  case (Completed s')
  then have "outfile (main_ts tr cfg) = header_row (header_fields h)
      # map (output_row tr (header_fields h))
          (take (length (filter (\<lambda>r. \<not> blank r) rest)) (filter (\<lambda>r. \<not> blank r) rest))"
    by (simp add: leave_def)
  then show ?thesis by blast
next
  case (Crashed s' e pre row post)
  have "outfile (main_ts tr cfg) = header_row (header_fields h)
      # map (output_row tr (header_fields h))
          (take (length (filter (\<lambda>r. \<not> blank r) pre)) (filter (\<lambda>r. \<not> blank r) rest))"
    using Crashed(1,3) unfolding Crashed(2) take_filter_prefix by (simp add: leave_def)
  moreover have "length (filter (\<lambda>r. \<not> blank r) pre) \<le> length (filter (\<lambda>r. \<not> blank r) rest)"
    unfolding Crashed(2) by simp
  ultimately show ?thesis by blast
qed

lemma main_diagnostic_lines:
  assumes "input cfg = Some (h # rest)" and "js ''vocalized'' \<in> set (header_fields h)"
  shows "\<exists>k \<le> length (rejected_lines tr (header_fields h) 2 rest).
      diagnostic_lines (errors (main tr cfg)) = take k (rejected_lines tr (header_fields h) 2 rest)
      \<and> (Wrote (outputPath cfg) \<in> set (console (main tr cfg))
            \<longrightarrow> k = length (rejected_lines tr (header_fields h) 2 rest))"
proof -
  let ?s0 = "(after_header cfg h)\<lparr>lineNumber := 1\<rparr>"
  have r: "ready (header_fields h) ?s0" by (rule ready_after_header)
  note rs = run_state [where tr = tr and cfg = cfg and h = h and rest = rest]
  have l0: "lineNumber ?s0 + 1 = 2" "diagnostic_lines (stderr ?s0) = []"
    by (simp_all add: after_header_def initial_def)
  from loop_diagnostic_lines [OF r, of tr rest cfg] obtain k
    where k: "k \<le> length (rejected_lines tr (header_fields h) 2 rest)"
      "diagnostic_lines (stderr (state_of (for_await (body tr cfg) rest ?s0)))
        = take k (rejected_lines tr (header_fields h) 2 rest)"
      "(\<exists>s'. for_await (body tr cfg) rest ?s0 = Next s')
        \<longrightarrow> k = length (rejected_lines tr (header_fields h) 2 rest)"
    unfolding l0 by auto
  from assms show ?thesis
  proof (cases rule: main_cases [where tr = tr])
    case (Completed s')
    have "diagnostic_lines (errors (main tr cfg))
        = take k (rejected_lines tr (header_fields h) 2 rest)"
      using k(2) unfolding Completed(1,2) by (simp add: leave_def)
    moreover have "k = length (rejected_lines tr (header_fields h) 2 rest)"
      using k(3) Completed(1) by blast
    ultimately show ?thesis using k(1) by (intro exI [of _ k]) simp
  next
    case (Aborted s' pre row post)
    have "diagnostic_lines (errors (main tr cfg))
        = take k (rejected_lines tr (header_fields h) 2 rest)"
      using k(2) unfolding Aborted(1,2) by (simp add: leave_def diagnostic_lines_append)
    moreover have "Wrote (outputPath cfg) \<notin> set (console (main tr cfg))"
      using rs(3) unfolding Aborted(1,2) by (simp add: leave_def)
    ultimately show ?thesis using k(1) by (intro exI [of _ k]) simp
  next
    case (Unanswered s' pre row post)
    have "diagnostic_lines (errors (main tr cfg))
        = take k (rejected_lines tr (header_fields h) 2 rest)"
      using k(2) unfolding Unanswered(1,2) by (simp add: leave_def)
    moreover have "Wrote (outputPath cfg) \<notin> set (console (main tr cfg))"
      using rs(3) unfolding Unanswered(1,2) by (simp add: leave_def)
    ultimately show ?thesis using k(1) by (intro exI [of _ k]) simp
  qed
qed

text \<open>
  Claim C8. After the header, a blank (all white space) line only advances the line
  counter of the script with error handling and does nothing in the other script; the
  lines written after the header line are those of non-blank rows only. The line numbers
  named in the failure diagnostics are, in order, the positions of the rejected rows
  among all physical lines of the input, blank ones included, the header line being
  line 1 (all of the rejected rows when the run prints its clean-completion line, the
  first k of them when it stops at a rejected row).
\<close>

theorem blank_lines_and_line_numbers:
  assumes "input cfg = Some (h # rest)" and "js ''vocalized'' \<in> set (header_fields h)"
  shows "(\<forall>s r. ready (header_fields h) s \<and> blank r \<longrightarrow>
            body tr cfg s r = Next (s\<lparr>lineNumber := lineNumber s + 1\<rparr>)
            \<and> body_ts tr s r = Next s)
       \<and> (\<exists>k \<le> length (filter (\<lambda>r. \<not> blank r) rest).
            outfile (main tr cfg) = header_row (header_fields h)
              # map (output_row tr (header_fields h)) (take k (filter (\<lambda>r. \<not> blank r) rest)))
       \<and> (\<exists>k \<le> length (filter (\<lambda>r. \<not> blank r) rest).
            outfile (main_ts tr cfg) = header_row (header_fields h)
              # map (output_row tr (header_fields h)) (take k (filter (\<lambda>r. \<not> blank r) rest)))
       \<and> (\<exists>k \<le> length (rejected_lines tr (header_fields h) 2 rest).
            diagnostic_lines (errors (main tr cfg))
              = take k (rejected_lines tr (header_fields h) 2 rest)
            \<and> (Wrote (outputPath cfg) \<in> set (console (main tr cfg))
                  \<longrightarrow> k = length (rejected_lines tr (header_fields h) 2 rest)))
       \<and> rejected_lines tr (header_fields h) 2 rest
           = map fst (filter (\<lambda>(i, r). \<not> blank r \<and> isl (row_result tr (header_fields h) r))
                        (zip [2..<2 + length rest] rest))"
proof (intro conjI)
  show "\<forall>s r. ready (header_fields h) s \<and> blank r \<longrightarrow>
            body tr cfg s r = Next (s\<lparr>lineNumber := lineNumber s + 1\<rparr>)
            \<and> body_ts tr s r = Next s"
    by (auto simp: body_blank [where hc = "header_fields h"]
        body_ts_row [where hc = "header_fields h"])
  show "\<exists>k \<le> length (filter (\<lambda>r. \<not> blank r) rest).
            outfile (main tr cfg) = header_row (header_fields h)
              # map (output_row tr (header_fields h)) (take k (filter (\<lambda>r. \<not> blank r) rest))"
    by (rule main_rows [OF assms])
  show "\<exists>k \<le> length (filter (\<lambda>r. \<not> blank r) rest).
            outfile (main_ts tr cfg) = header_row (header_fields h)
              # map (output_row tr (header_fields h)) (take k (filter (\<lambda>r. \<not> blank r) rest))"
    by (rule main_ts_rows [OF assms])
  show "\<exists>k \<le> length (rejected_lines tr (header_fields h) 2 rest).
            diagnostic_lines (errors (main tr cfg))
              = take k (rejected_lines tr (header_fields h) 2 rest)
            \<and> (Wrote (outputPath cfg) \<in> set (console (main tr cfg))
                  \<longrightarrow> k = length (rejected_lines tr (header_fields h) 2 rest))"
    by (rule main_diagnostic_lines [OF assms])
  show "rejected_lines tr (header_fields h) 2 rest
           = map fst (filter (\<lambda>(i, r). \<not> blank r \<and> isl (row_result tr (header_fields h) r))
                        (zip [2..<2 + length rest] rest))"
    unfolding rejected_lines_def enumerate_eq_zip by (rule refl)
qed

theorem blank_lines_and_line_numbers_witness:
  "diagnostic_lines (errors (main sample_transliterate
      ((sample_run [js ''id|vocalized'', js '' '', js ''1|x!'', js ''2|ab'', js '''', js ''3|y!''])
         \<lparr>skipErrors := True\<rparr>))) = [3, 6]
   \<and> length (outfile (main sample_transliterate
      ((sample_run [js ''id|vocalized'', js '' '', js ''1|x!'', js ''2|ab'', js '''', js ''3|y!''])
         \<lparr>skipErrors := True\<rparr>))) \<le> 4"
proof -
  let ?h = "js ''id|vocalized''"
  let ?rest = "[js '' '', js ''1|x!'', js ''2|ab'', js '''', js ''3|y!'']"
  let ?cfg = "(sample_run (?h # ?rest))\<lparr>skipErrors := True\<rparr>"
  have i: "input ?cfg = Some (?h # ?rest)" by (simp add: sample_run_def)
  have v: "js ''vocalized'' \<in> set (header_fields ?h)" by code_simp
  have st: "Wrote (outputPath ?cfg) \<in> set (console (main sample_transliterate ?cfg))"
    by code_simp
  have e: "rejected_lines sample_transliterate (header_fields ?h) 2 ?rest = [3, 6]"
    by code_simp
  have n: "length (filter (\<lambda>r. \<not> blank r) ?rest) = 3" by code_simp
  note t = blank_lines_and_line_numbers [OF i v, of sample_transliterate]
  from t st have "diagnostic_lines (errors (main sample_transliterate ?cfg)) = [3, 6]"
    unfolding e by auto
  moreover from t have "length (outfile (main sample_transliterate ?cfg)) \<le> 4"
    unfolding n by auto
  ultimately show ?thesis by simp
qed

section \<open>Properties of the offending-token search\<close>

lemma separator_classes: "isPureSepChar c = isSplitSep c"
proof -
  have "(0x2010 \<le> c \<and> c \<le> 0x2015) =
      (c = 0x2010 \<or> c = 0x2011 \<or> c = 0x2012 \<or> c = 0x2013 \<or> c = 0x2014 \<or> c = 0x2015)"
  proof
    assume "0x2010 \<le> c \<and> c \<le> 0x2015"
    then have "0x2010 \<le> unat c \<and> unat c \<le> 0x2015"
      by (simp add: word_le_nat_alt)
    then have "unat c = 0x2010 \<or> unat c = 0x2011 \<or> unat c = 0x2012 \<or> unat c = 0x2013
        \<or> unat c = 0x2014 \<or> unat c = 0x2015"
      by arith
    then show "c = 0x2010 \<or> c = 0x2011 \<or> c = 0x2012 \<or> c = 0x2013 \<or> c = 0x2014 \<or> c = 0x2015"
      by (simp add: word_unat_eq_iff)
  next
    assume "c = 0x2010 \<or> c = 0x2011 \<or> c = 0x2012 \<or> c = 0x2013 \<or> c = 0x2014 \<or> c = 0x2015"
    then show "0x2010 \<le> c \<and> c \<le> 0x2015" by auto
  qed
  then show ?thesis by (simp add: isPureSepChar_def isSplitSep_def)
qed

lemma split_capture_last:
  assumes "dropWhile (\<lambda>c. \<not> sep c) s = []"
  shows "split_capture sep s = [s]"
  by (subst split_capture.simps) (simp only: assms list.case)

lemma split_capture_more:
  assumes "dropWhile (\<lambda>c. \<not> sep c) s = r # rs"
  shows "split_capture sep s
    = takeWhile (\<lambda>c. \<not> sep c) s # takeWhile sep (r # rs)
      # split_capture sep (dropWhile sep (r # rs))"
  by (subst split_capture.simps) (simp only: assms list.case)

lemma concat_split_capture: "concat (split_capture sep s) = s"
proof (induction sep s rule: split_capture.induct)
  case (1 sep s)
  show ?case
  proof (cases "dropWhile (\<lambda>c. \<not> sep c) s")
    case Nil
    then show ?thesis by (simp only: split_capture_last concat.simps append_Nil2)
  next
    case (Cons r rs)
    have "concat (split_capture sep s)
        = takeWhile (\<lambda>c. \<not> sep c) s @ takeWhile sep (r # rs)
          @ concat (split_capture sep (dropWhile sep (r # rs)))"
      by (simp only: split_capture_more [OF Cons] concat.simps)
    also have "\<dots> = takeWhile (\<lambda>c. \<not> sep c) s @ takeWhile sep (r # rs) @ dropWhile sep (r # rs)"
      using "1.IH" [OF Cons] by simp
    also have "\<dots> = takeWhile (\<lambda>c. \<not> sep c) s @ dropWhile (\<lambda>c. \<not> sep c) s"
      unfolding Cons takeWhile_dropWhile_id ..
    finally show ?thesis by simp
  qed
qed

lemma split_capture_runs:
  "tok \<in> set (split_capture sep s) \<Longrightarrow> (\<forall>c\<in>set tok. sep c) \<or> (\<forall>c\<in>set tok. \<not> sep c)"
proof (induction sep s rule: split_capture.induct)
  case (1 sep s)
  show ?case
  proof (cases "dropWhile (\<lambda>c. \<not> sep c) s")
    case Nil
    then have "split_capture sep s = [s]" by (rule split_capture_last)
    moreover from Nil have "\<forall>c\<in>set s. \<not> sep c" by (simp add: dropWhile_eq_Nil_conv)
    ultimately show ?thesis using "1.prems" by simp
  next
    case (Cons r rs)
    have "split_capture sep s
        = takeWhile (\<lambda>c. \<not> sep c) s # takeWhile sep (r # rs)
          # split_capture sep (dropWhile sep (r # rs))"
      by (rule split_capture_more [OF Cons])
    with "1.prems" consider "tok = takeWhile (\<lambda>c. \<not> sep c) s" | "tok = takeWhile sep (r # rs)"
      | "tok \<in> set (split_capture sep (dropWhile sep (r # rs)))"
      by auto
    then show ?thesis
    proof cases
      case 1
      then show ?thesis using set_takeWhileD [of _ "\<lambda>c. \<not> sep c" s] by blast
    next
      case 2
      then show ?thesis using set_takeWhileD [of _ sep "r # rs"] by blast
    next
      case 3
      from "1.IH" [OF Cons 3] show ?thesis .
    qed
  qed
qed

lemma offending_loop_None:
  "offending_loop tr toks = None \<longleftrightarrow>
     (\<forall>tok\<in>set (filter (\<lambda>tok. \<not> pure_separator tok) toks). \<not> isl (tr tok))"
  by (induction toks) (auto split: sum.splits)

lemma offending_loop_Some:
  "offending_loop tr toks = Some tok \<Longrightarrow>
     \<exists>before after. filter (\<lambda>tok. \<not> pure_separator tok) toks = before @ tok # after
       \<and> isl (tr tok) \<and> (\<forall>t\<in>set before. \<not> isl (tr t))"
proof (induction toks)
  case Nil
  then show ?case by simp
next
  case (Cons t toks)
  show ?case
  proof (cases "pure_separator t")
    case True
    with Cons show ?thesis by simp
  next
    case ns: False
    show ?thesis
    proof (cases "tr t")
      case (Inl e)
      with ns Cons.prems have "tok = t" by simp
      with ns Inl have "filter (\<lambda>tok. \<not> pure_separator tok) (t # toks)
          = [] @ tok # filter (\<lambda>tok. \<not> pure_separator tok) toks \<and> isl (tr tok)
          \<and> (\<forall>t\<in>set []. \<not> isl (tr t))"
        by simp
      then show ?thesis by blast
    next
      case (Inr res)
      with ns Cons.prems have "offending_loop tr toks = Some tok" by simp
      from Cons.IH [OF this] obtain before after
        where b: "filter (\<lambda>tok. \<not> pure_separator tok) toks = before @ tok # after"
          "isl (tr tok)" "\<forall>t\<in>set before. \<not> isl (tr t)"
        by blast
      have "filter (\<lambda>tok. \<not> pure_separator tok) (t # toks) = (t # before) @ tok # after"
        using ns b(1) by simp
      moreover have "\<forall>x\<in>set (t # before). \<not> isl (tr x)"
        using b(3) Inr by simp
      ultimately show ?thesis using b(2) by blast
    qed
  qed
qed

lemma remaining_tokens_filter:
  "filter (\<lambda>tok. \<not> pure_separator tok) (filter (\<lambda>tok. tok \<noteq> []) (split_capture isSplitSep heb))
     = remaining_tokens heb"
  by (simp add: remaining_tokens_def conj_commute)

lemma remaining_token_word:
  assumes "tok \<in> set (remaining_tokens heb)"
  shows "tok \<noteq> [] \<and> (\<forall>c\<in>set tok. \<not> isSplitSep c)"
proof -
  from assms have t: "tok \<in> set (split_capture isSplitSep heb)" "tok \<noteq> []"
      "\<not> pure_separator tok"
    by (simp_all add: remaining_tokens_def)
  from t(2,3) have "\<not> (\<forall>c\<in>set tok. isSplitSep c)"
    by (simp add: pure_separator_def list_all_iff separator_classes)
  with split_capture_runs [OF t(1)] t(2) show ?thesis by blast
qed

lemma discarded_token_separators:
  assumes "tok \<in> set (split_capture isSplitSep heb)" and "tok \<notin> set (remaining_tokens heb)"
  shows "\<forall>c\<in>set tok. isSplitSep c"
proof -
  from assms have "tok = [] \<or> pure_separator tok"
    by (auto simp: remaining_tokens_def)
  then show ?thesis
    by (auto simp: pure_separator_def list_all_iff separator_classes)
qed

lemma words_dropWhile:
  "filter (\<lambda>t. t \<noteq> [] \<and> \<not> list_all sep t) (split_capture sep (dropWhile sep s))
     = filter (\<lambda>t. t \<noteq> [] \<and> \<not> list_all sep t) (split_capture sep s)"
proof (cases s)
  case Nil
  then show ?thesis by simp
next
  case (Cons c cs)
  show ?thesis
  proof (cases "sep c")
    case False
    with Cons show ?thesis by simp
  next
    case True
    with Cons have d: "dropWhile (\<lambda>c. \<not> sep c) s = c # cs" by simp
    have t: "takeWhile (\<lambda>c. \<not> sep c) s = []" using Cons True by simp
    have a: "list_all sep (takeWhile sep (c # cs))"
      using set_takeWhileD [of _ sep "c # cs"] by (auto simp: list_all_iff)
    show ?thesis
      unfolding split_capture_more [OF d] t using a Cons by simp
  qed
qed

lemma spec_words_from_tokens:
  "\<forall>c\<in>set cur. \<not> sep c \<Longrightarrow>
   spec_words_from sep cur s
     = filter (\<lambda>t. t \<noteq> [] \<and> \<not> list_all sep t) (split_capture sep (cur @ s))"
proof (induction s arbitrary: cur)
  case Nil
  then have "dropWhile (\<lambda>c. \<not> sep c) cur = []" by simp
  then have "split_capture sep cur = [cur]" by (rule split_capture_last)
  moreover have "cur \<noteq> [] \<Longrightarrow> \<not> list_all sep cur"
    using Nil by (cases cur) simp_all
  ultimately show ?case by auto
next
  case (Cons c cs)
  show ?case
  proof (cases "sep c")
    case False
    with Cons.prems have "\<forall>x\<in>set (cur @ [c]). \<not> sep x" by simp
    from Cons.IH [OF this] False show ?thesis by simp
  next
    case True
    have d: "dropWhile (\<lambda>c. \<not> sep c) (cur @ c # cs) = c # cs"
      using Cons.prems True by (simp add: dropWhile_append)
    have t: "takeWhile (\<lambda>c. \<not> sep c) (cur @ c # cs) = cur"
      using Cons.prems True by (simp add: takeWhile_append)
    have a: "list_all sep (takeWhile sep (c # cs))"
      using set_takeWhileD [of _ sep "c # cs"] by (auto simp: list_all_iff)
    have n: "cur \<noteq> [] \<Longrightarrow> \<not> list_all sep cur"
      using Cons.prems by (cases cur) simp_all
    have w: "spec_words_from sep [] cs
        = filter (\<lambda>t. t \<noteq> [] \<and> \<not> list_all sep t) (split_capture sep (dropWhile sep (c # cs)))"
      using Cons.IH [of "[]"] True words_dropWhile [of sep cs] by simp
    show ?thesis
      unfolding split_capture_more [OF d] t using a n w True by auto
  qed
qed

lemma remaining_tokens_words: "remaining_tokens heb = spec_words isSplitSep heb"
proof -
  have "(\<lambda>tok. tok \<noteq> [] \<and> \<not> pure_separator tok)
      = (\<lambda>t. t \<noteq> [] \<and> \<not> list_all isSplitSep t)"
    by (auto simp: pure_separator_def list_all_iff separator_classes)
  then show ?thesis
    using spec_words_from_tokens [of "[]" isSplitSep heb]
    by (simp add: remaining_tokens_def spec_words_def)
qed

lemma report_names_token:
  "OffendingToken tok \<in> set (report tr dbg hc n cells line (Some heb) msg)
     \<longleftrightarrow> dbg \<and> heb \<noteq> [] \<and> findOffendingWord tr heb = Some tok"
proof (cases "findOffendingWord tr heb")
  case None
  then show ?thesis by (simp add: report_def Let_def)
next
  case (Some w)
  then have "offending_loop tr (filter (\<lambda>tok. tok \<noteq> []) (split_capture isSplitSep heb)) = Some w"
    by (simp add: findOffendingWord_def)
  from offending_loop_Some [OF this] have "w \<in> set (remaining_tokens heb)"
    unfolding remaining_tokens_filter by auto
  from remaining_token_word [OF this] have "w \<noteq> []" by blast
  with Some show ?thesis by (auto simp: report_def Let_def)
qed

text \<open>
  Claim C7. The offending-token search splits the field at the runs of separator
  characters (white space, U+05BE, the hyphen, U+2010 to U+2015; the class of the split
  and the class of the pure-separator test are the same), losing no character; what
  remains after the separator tokens and the empty tokens are dropped are the words of
  the field, that is its maximal separator-free runs, in left-to-right order. The search
  returns nothing exactly when the library accepts every word, and otherwise the first
  word that the library rejects. In the diagnostics, an offending-token line appears
  exactly in debug mode, for exactly that word.
\<close>

theorem offending_token:
  "(findOffendingWord tr heb = None \<longleftrightarrow> (\<forall>tok\<in>set (remaining_tokens heb). \<not> isl (tr tok)))
   \<and> (\<forall>tok. findOffendingWord tr heb = Some tok \<longrightarrow>
         (\<exists>before after. remaining_tokens heb = before @ tok # after
            \<and> isl (tr tok) \<and> (\<forall>t\<in>set before. \<not> isl (tr t))))
   \<and> remaining_tokens heb = spec_words isSplitSep heb
   \<and> (\<forall>tok\<in>set (remaining_tokens heb). tok \<noteq> [] \<and> (\<forall>c\<in>set tok. \<not> isSplitSep c))
   \<and> concat (split_capture isSplitSep heb) = heb
   \<and> (\<forall>tok\<in>set (split_capture isSplitSep heb).
         tok \<notin> set (remaining_tokens heb) \<longrightarrow> (\<forall>c\<in>set tok. isSplitSep c))
   \<and> (\<forall>c. isPureSepChar c = isSplitSep c)
   \<and> (\<forall>tok dbg hc n cells line msg.
         OffendingToken tok \<in> set (report tr dbg hc n cells line (Some heb) msg)
           \<longleftrightarrow> dbg \<and> heb \<noteq> [] \<and> findOffendingWord tr heb = Some tok)"
proof (intro conjI)
  show "findOffendingWord tr heb = None \<longleftrightarrow> (\<forall>tok\<in>set (remaining_tokens heb). \<not> isl (tr tok))"
    unfolding findOffendingWord_def offending_loop_None remaining_tokens_filter ..
  show "\<forall>tok. findOffendingWord tr heb = Some tok \<longrightarrow>
         (\<exists>before after. remaining_tokens heb = before @ tok # after
            \<and> isl (tr tok) \<and> (\<forall>t\<in>set before. \<not> isl (tr t)))"
    using offending_loop_Some [of tr "filter (\<lambda>tok. tok \<noteq> []) (split_capture isSplitSep heb)"]
    unfolding findOffendingWord_def remaining_tokens_filter by blast
  show "remaining_tokens heb = spec_words isSplitSep heb"
    by (rule remaining_tokens_words)
  show "\<forall>tok\<in>set (remaining_tokens heb). tok \<noteq> [] \<and> (\<forall>c\<in>set tok. \<not> isSplitSep c)"
    using remaining_token_word by blast
  show "concat (split_capture isSplitSep heb) = heb"
    by (rule concat_split_capture)
  show "\<forall>tok\<in>set (split_capture isSplitSep heb).
         tok \<notin> set (remaining_tokens heb) \<longrightarrow> (\<forall>c\<in>set tok. isSplitSep c)"
    using discarded_token_separators by blast
  show "\<forall>c. isPureSepChar c = isSplitSep c"
    by (simp add: separator_classes)
  show "\<forall>tok dbg hc n cells line msg.
         OffendingToken tok \<in> set (report tr dbg hc n cells line (Some heb) msg)
           \<longleftrightarrow> dbg \<and> heb \<noteq> [] \<and> findOffendingWord tr heb = Some tok"
    by (simp add: report_names_token)
qed

theorem offending_token_witness:
  "findOffendingWord sample_transliterate (js ''ab  cd'' @ [0x05BE] @ js ''ef'') = None
   \<and> OffendingToken (js ''c!'')
       \<in> set (report sample_transliterate True [js ''id'', js ''vocalized''] 2
                 [js ''1'', js ''ab'' @ [0x05BE] @ js ''c!'' @ [0x2013] @ js ''d! e'']
                 (js ''1|x'') (Some (js ''ab'' @ [0x05BE] @ js ''c!'' @ [0x2013] @ js ''d! e''))
                 (js ''bad''))"
proof -
  let ?good = "js ''ab  cd'' @ [0x05BE] @ js ''ef''"
  let ?bad = "js ''ab'' @ [0x05BE] @ js ''c!'' @ [0x2013] @ js ''d! e''"
  have g: "\<forall>tok\<in>set (remaining_tokens ?good). \<not> isl (sample_transliterate tok)"
    by code_simp
  have b: "findOffendingWord sample_transliterate ?bad = Some (js ''c!'')"
    by code_simp
  have n: "?bad \<noteq> []" by (simp add: js_def)
  from offending_token [of sample_transliterate ?good] g
  have "findOffendingWord sample_transliterate ?good = None" by blast
  moreover from offending_token [of sample_transliterate ?bad] b n
  have "OffendingToken (js ''c!'')
       \<in> set (report sample_transliterate True [js ''id'', js ''vocalized''] 2
                 [js ''1'', ?bad] (js ''1|x'') (Some ?bad) (js ''bad''))"
    by blast
  ultimately show ?thesis by blast
qed

end
